theory Spec2Isabelle
  imports
    Complex_Main
    "HOL-Library.Char_ord"
    "HOL-Library.List_Lexorder"
    "HOL-Library.Multiset"
begin

unbundle bit_operations_syntax

section \<open>Timestamp identifiers (src/src/publisher.ts, lines 158--178)\<close>

text \<open>
  \<^verbatim>\<open>generateTid\<close> reads two things from its environment: the millisecond clock
  \<^verbatim>\<open>Date.now()\<close> and one draw of \<^verbatim>\<open>Math.random()\<close>. Both are parameters
  of the model. The clock reading is an integer; the draw is a real number (every double
  is one), and \<^verbatim>\<open>Math.random() * 1024\<close> is exact on doubles because 1024 is a
  power of two, so \<^verbatim>\<open>Math.floor(Math.random() * 1024)\<close> is the floor of the real
  product. \<^verbatim>\<open>BigInt\<close> is an unbounded two's-complement integer, which is what the
  bit operations on \<^typ>\<open>int\<close> are.

  JavaScript compares strings by code unit; the alphabet is ASCII, so the order of
  \<^typ>\<open>char\<close> by character code and the lexicographic order on lists are the
  order \<^verbatim>\<open><\<close> of the source language on these strings.
\<close>

definition BASE32_SORTABLE :: string where
  "BASE32_SORTABLE = ''234567abcdefghijklmnopqrstuvwxyz''"

text \<open>
  The encoding loop, \<open>k\<close> iterations still to run: take the low five bits, prepend
  their symbol, shift right by five.
\<close>

fun encodeLoop :: "nat \<Rightarrow> int \<Rightarrow> string \<Rightarrow> string" where
  "encodeLoop 0 remaining encoded = encoded"
| "encodeLoop (Suc k) remaining encoded =
     encodeLoop k (drop_bit 5 remaining)
       (BASE32_SORTABLE ! nat (remaining AND 31) # encoded)"

text \<open>
  The 64-bit value \<^verbatim>\<open>tid\<close> that \<^verbatim>\<open>generateTid\<close> composes (lines 162--166) from
  the number \<^verbatim>\<open>now\<close> and the random draw, and the string it encodes (lines 169--177).
\<close>

definition tidValue :: "int \<Rightarrow> real \<Rightarrow> int" where
  "tidValue now random =
     (let clockId = \<lfloor>random * 1024\<rfloor>
      in (push_bit 10 now OR clockId) AND 0x7FFFFFFFFFFFFFFF)"

definition generateTidAt :: "int \<Rightarrow> real \<Rightarrow> string" where
  "generateTidAt now random = encodeLoop 13 (tidValue now random) []"

text \<open>
  Line 161: \<^verbatim>\<open>now = Date.now() * 1000\<close> is a product of doubles. A clock reading is
  an integer of magnitude at most \<open>8.64 * 10 ^ 15\<close>, below \<open>2 ^ 53\<close>, hence a
  double; the product of two doubles is their exact product rounded to the nearest
  double, ties to the even significand. \<^verbatim>\<open>roundToDouble\<close> is that rounding on
  integers: a double has a significand of 53 bits, so an integer below \<open>2 ^ 53\<close> in
  magnitude is kept and a longer one loses its low bits. The result is an integer in
  every case, and the facts that need no exact timestamp are stated for every integer
  \<^verbatim>\<open>now\<close> as well.
\<close>

fun bitLength :: "nat \<Rightarrow> nat" where
  "bitLength n = (if n = 0 then 0 else Suc (bitLength (n div 2)))"

definition roundToDouble :: "int \<Rightarrow> int" where
  "roundToDouble x =
     (if \<bar>x\<bar> < 2 ^ 53 then x
      else
        let e = bitLength (nat \<bar>x\<bar>) - 53;
            q = \<bar>x\<bar> div 2 ^ e;
            r = \<bar>x\<bar> mod 2 ^ e;
            half = 2 ^ (e - 1);
            rounded = (if r > half \<or> (r = half \<and> odd q) then q + 1 else q)
        in sgn x * (rounded * 2 ^ e))"

definition generateTid :: "int \<Rightarrow> real \<Rightarrow> string" where
  "generateTid dateNow random = generateTidAt (roundToDouble (dateNow * 1000)) random"

text \<open>
  The record-key pattern
  \<^verbatim>\<open>^[234567abcdefghij][234567abcdefghijklmnopqrstuvwxyz]{12}$\<close>
  and the clock-identifier field (bits 9 to 0) of a composed value.
\<close>

definition tidRegex :: "string \<Rightarrow> bool" where
  "tidRegex s =
     (case s of
        [] \<Rightarrow> False
      | c # cs \<Rightarrow>
          c \<in> set ''234567abcdefghij'' \<and> length cs = 12
          \<and> list_all (\<lambda>d. d \<in> set BASE32_SORTABLE) cs)"

definition clockField :: "int \<Rightarrow> int" where
  "clockField tid = tid AND 1023"

section \<open>Publishing a document (src/src/publisher.ts, lines 223--287)\<close>

text \<open>
  The publisher object holds the agent, the resolved identity and the endpoint, each
  \<^verbatim>\<open>null\<close> until \<^verbatim>\<open>login\<close> has run. \<^verbatim>\<open>publishDocument\<close> is modelled
  with its effects explicit: it takes the clock reading and the random draw that
  \<^verbatim>\<open>generateTid\<close> consumes, and returns its outcome together with the list of
  calls it made to the remote repository. The agent is the remote's \<^verbatim>\<open>createRecord\<close>:
  a function from the request to either a failure message or the response.

  The TypeScript type \<^verbatim>\<open>PublishDocumentInput\<close> declares \<^verbatim>\<open>site\<close>, \<^verbatim>\<open>title\<close> and
  \<^verbatim>\<open>publishedAt\<close> as required strings; types are erased at run time, where a missing
  property reads as \<^verbatim>\<open>undefined\<close>. Every field of the input is therefore an option,
  \<open>None\<close> standing for \<^verbatim>\<open>undefined\<close>. A record under construction is the list of its
  entries in the order of the object literal.
\<close>

datatype 'c fieldValue =
    Str string
  | StrList "string list"
  | Unknown 'c
  | StrongRef string string

record 'c PublishDocumentInput =
  site :: "string option"
  title :: "string option"
  publishedAt :: "string option"
  path :: "string option"
  description :: "string option"
  updatedAt :: "string option"
  tags :: "string list option"
  textContent :: "string option"
  content :: "'c option"
  bskyPostRef :: "(string \<times> string) option"

record PublishResult =
  resultUri :: string
  resultCid :: string

datatype 'c repoCall =
  CreateRecord (callRepo: string) (callCollection: string) (callRkey: string)
    (callRecord: "(string \<times> 'c fieldValue) list")

datatype publishError = NotLoggedIn | RemoteFailure string

type_synonym 'c AtpAgent = "'c repoCall \<Rightarrow> string + PublishResult"

record 'c StandardSitePublisher =
  agent :: "'c AtpAgent option"
  publisherDid :: "string option"
  pdsUrl :: "string option"

definition COLLECTIONS_DOCUMENT :: string where
  "COLLECTIONS_DOCUMENT = ''site.standard.document''"

definition getDid :: "'c StandardSitePublisher \<Rightarrow> publishError + string" where
  "getDid this =
     (case publisherDid this of
        None \<Rightarrow> Inl NotLoggedIn
      | Some d \<Rightarrow> if d = [] then Inl NotLoggedIn else Inr d)"

definition getAgent :: "'c StandardSitePublisher \<Rightarrow> publishError + 'c AtpAgent" where
  "getAgent this =
     (case agent this of
        None \<Rightarrow> Inl NotLoggedIn
      | Some a \<Rightarrow> Inr a)"

definition documentRecord :: "'c PublishDocumentInput \<Rightarrow> (string \<times> 'c fieldValue option) list" where
  "documentRecord input =
     [(''$type'', Some (Str ''site.standard.document'')),
      (''site'', map_option Str (site input)),
      (''title'', map_option Str (title input)),
      (''publishedAt'', map_option Str (publishedAt input)),
      (''path'', map_option Str (path input)),
      (''description'', map_option Str (description input)),
      (''updatedAt'', map_option Str (updatedAt input)),
      (''tags'', map_option StrList (tags input)),
      (''textContent'', map_option Str (textContent input)),
      (''content'', map_option Unknown (content input)),
      (''bskyPostRef'', map_option (\<lambda>(u, c). StrongRef u c) (bskyPostRef input))]"

definition cleanRecord :: "(string \<times> 'c fieldValue option) list \<Rightarrow> (string \<times> 'c fieldValue) list" where
  "cleanRecord entries = concat (map (\<lambda>(k, v). case v of None \<Rightarrow> [] | Some w \<Rightarrow> [(k, w)]) entries)"

definition publishDocument ::
  "'c StandardSitePublisher \<Rightarrow> int \<Rightarrow> real \<Rightarrow> 'c PublishDocumentInput
    \<Rightarrow> (publishError + PublishResult) \<times> 'c repoCall list" where
  "publishDocument this dateNow random input =
     (case getDid this of
        Inl e \<Rightarrow> (Inl e, [])
      | Inr d \<Rightarrow>
          (case getAgent this of
             Inl e \<Rightarrow> (Inl e, [])
           | Inr a \<Rightarrow>
               let record = documentRecord input;
                   cleaned = cleanRecord record;
                   rkey = generateTid dateNow random;
                   call = CreateRecord d COLLECTIONS_DOCUMENT rkey cleaned
               in (case a call of
                     Inl message \<Rightarrow> (Inl (RemoteFailure message), [call])
                   | Inr response \<Rightarrow>
                       (Inr \<lparr>resultUri = resultUri response, resultCid = resultCid response\<rparr>,
                        [call]))))"

section \<open>Addresses of records (src/src/verification.ts, lines 68--94)\<close>

text \<open>
  The two formatting functions are template literals. \<^verbatim>\<open>parseAtUri\<close> matches
  \<^verbatim>\<open>/^at:\/\/([^/]+)\/([^/]+)\/(.+)$/\<close>. The first two groups are non-empty runs
  without a slash, each followed by a slash, so each is the longest slash-free run at
  its position and no backtracking can choose another split. The third group is the
  whole remainder, which must be non-empty and, since \<^verbatim>\<open>.\<close> matches no line
  terminator and \<^verbatim>\<open>$\<close> (without the \<^verbatim>\<open>m\<close> flag) only the end of input, free of
  line terminators. Characters are 8-bit here, so the line terminators of the model are
  line feed and carriage return (the source language has U+2028 and U+2029 as well).
\<close>

definition getDocumentAtUri :: "string \<Rightarrow> string \<Rightarrow> string" where
  "getDocumentAtUri did rkey = ''at://'' @ did @ ''/site.standard.document/'' @ rkey"

definition getPublicationAtUri :: "string \<Rightarrow> string \<Rightarrow> string" where
  "getPublicationAtUri did rkey = ''at://'' @ did @ ''/site.standard.publication/'' @ rkey"

record parsedAtUri =
  did :: string
  collection :: string
  rkey :: string

definition isLineTerminator :: "char \<Rightarrow> bool" where
  "isLineTerminator c = (c = CHR 0x0A \<or> c = CHR 0x0D)"

definition notSlash :: "char \<Rightarrow> bool" where
  "notSlash c = (c \<noteq> CHR ''/'')"

definition parseAtUri :: "string \<Rightarrow> parsedAtUri option" where
  "parseAtUri u =
     (if take 5 u \<noteq> ''at://'' then None
      else
        let afterScheme = drop 5 u;
            group1 = takeWhile notSlash afterScheme;
            rest1 = dropWhile notSlash afterScheme
        in if group1 = [] \<or> rest1 = [] then None
           else
             let afterSlash1 = tl rest1;
                 group2 = takeWhile notSlash afterSlash1;
                 rest2 = dropWhile notSlash afterSlash1
             in if group2 = [] \<or> rest2 = [] then None
                else
                  let group3 = tl rest2
                  in if group3 = [] \<or> list_ex isLineTerminator group3 then None
                     else Some \<lparr>did = group1, collection = group2, rkey = group3\<rparr>)"

section \<open>Comment aggregation (src/unnamed/part_002)\<close>

text \<open>
  A flat comment is a record without the \<^verbatim>\<open>replies\<close> field: \<^verbatim>\<open>buildCommentTree\<close>
  overwrites that field of every input with a fresh array, and \<^verbatim>\<open>flattenComments\<close>
  erases it from every output. Creation times are the millisecond values that
  \<^verbatim>\<open>getTime()\<close> returns. A tree of comments is a node with its list of replies.

  A post of the social network carries the properties that \<^verbatim>\<open>bskyPostToComment\<close>
  reads; timestamps are already parsed. A thread view has a type tag, possibly a post,
  and its replies (absent replies are the empty list).

  The two network calls are parameters: each takes its arguments and either throws or
  returns, the thread call possibly returning no thread and the search call possibly no
  list of posts.
\<close>

record Author =
  authorDid :: string
  handle :: string
  displayName :: "string option"
  avatar :: "string option"

datatype Source = Bluesky | Leaflet | Whitewind | UnknownSource

record Comment =
  uri :: string
  cid :: string
  commentText :: string
  author :: Author
  createdAt :: int
  source :: Source
  sourceUrl :: string
  parentUri :: "string option"
  likeCount :: "int option"
  replyCount :: "int option"

datatype CommentTree = Node (nodeComment: Comment) (nodeReplies: "CommentTree list")

record Post =
  post_uri :: string
  post_cid :: string
  post_author :: Author
  post_record_text :: "string option"
  post_record_createdAt :: "int option"
  post_indexedAt :: int
  post_likeCount :: "int option"
  post_replyCount :: "int option"
  post_record_reply_parent_uri :: "string option"

datatype Thread =
  Thread (thread_type: string) (thread_post: "Post option") (thread_replies: "Thread list")

datatype 'a outcome = Throws | Returns 'a

text \<open>
  \<^verbatim>\<open>buildCommentTree\<close> copies every comment into a node object with an empty
  \<^verbatim>\<open>replies\<close> array, keeps the nodes in a map keyed by address, and then pushes
  references to these nodes into the \<^verbatim>\<open>replies\<close> arrays of their parents and into
  the root array. The nodes are shared and mutated, so the model has an explicit store:
  the map from an address to the node it holds, a node being the copied comment with its
  \<^verbatim>\<open>replies\<close> array, and an array of nodes being the list of their addresses. Every
  reference the code stores is to a node that the map holds at that moment (the second
  pass never changes the keys), so an address identifies the node.
\<close>

type_synonym NodeStore = "string \<rightharpoonup> Comment \<times> string list"

text \<open>
  \<^verbatim>\<open>bskyPostToComment\<close> (lines 74--104); \<^verbatim>\<open>lastSegment\<close> is
  \<^verbatim>\<open>uri.split('/').pop()\<close>. The falsy values of an optional string are the absent
  and the empty one.
\<close>

definition lastSegment :: "string \<Rightarrow> string" where
  "lastSegment s = rev (takeWhile (\<lambda>c. c \<noteq> CHR ''/'') (rev s))"

definition bskyPostToComment :: "Post \<Rightarrow> Comment" where
  "bskyPostToComment post =
     (let postId = lastSegment (post_uri post);
          url = ''https://bsky.app/profile/'' @ handle (post_author post) @ ''/post/'' @ postId
      in \<lparr>uri = post_uri post,
          cid = post_cid post,
          commentText = (case post_record_text post of None \<Rightarrow> [] | Some t \<Rightarrow> t),
          author = post_author post,
          createdAt = (case post_record_createdAt post of None \<Rightarrow> post_indexedAt post | Some t \<Rightarrow> t),
          source = Bluesky,
          sourceUrl = url,
          parentUri = (case post_record_reply_parent_uri post of
                         None \<Rightarrow> None
                       | Some p \<Rightarrow> if p = [] then None else Some p),
          likeCount = post_likeCount post,
          replyCount = post_replyCount post\<rparr>)"

text \<open>
  \<^verbatim>\<open>processThread\<close> (lines 109--128), \<^verbatim>\<open>fetchBlueskyReplies\<close> (lines 133--162) and
  \<^verbatim>\<open>searchBlueskyMentions\<close> (lines 168--196). The \<^verbatim>\<open>try\<close> block of each fetch
  turns every failure of the network call into the empty list; it covers the conversion
  of the response as well, so a response that cannot be converted behaves as a call
  that throws. The fetch functions take the depth and the limit from their caller,
  \<^verbatim>\<open>fetchComments\<close>, which always passes them; the \<^verbatim>\<open>service\<close> option only
  selects the server that the two network calls stand for.
\<close>

fun processThread :: "Thread \<Rightarrow> int \<Rightarrow> int \<Rightarrow> Comment list" where
  "processThread (Thread ty p rs) maxDepth currentDepth =
     (if currentDepth > maxDepth then []
      else
        (case p of
           None \<Rightarrow> []
         | Some q \<Rightarrow> if currentDepth > 0 then [bskyPostToComment q] else [])
        @ concat (map (\<lambda>reply. processThread reply maxDepth (currentDepth + 1)) rs))"

definition fetchBlueskyReplies ::
  "(string \<Rightarrow> int \<Rightarrow> Thread option outcome) \<Rightarrow> string \<Rightarrow> int \<Rightarrow> Comment list" where
  "fetchBlueskyReplies getPostThread postUri maxDepth =
     (case getPostThread postUri maxDepth of
        Throws \<Rightarrow> []
      | Returns None \<Rightarrow> []
      | Returns (Some thread) \<Rightarrow>
          if thread_type thread = ''app.bsky.feed.defs#notFoundPost'' then []
          else processThread thread maxDepth 0)"

definition searchBlueskyMentions ::
  "(string \<Rightarrow> int \<Rightarrow> Post list option outcome) \<Rightarrow> string \<Rightarrow> int \<Rightarrow> Comment list" where
  "searchBlueskyMentions searchPosts url maxResults =
     (case searchPosts url maxResults of
        Throws \<Rightarrow> []
      | Returns None \<Rightarrow> []
      | Returns (Some posts) \<Rightarrow> map bskyPostToComment posts)"

text \<open>
  \<^verbatim>\<open>buildCommentTree\<close> (lines 201--239). The first pass indexes the comments, a later
  comment replacing an earlier one with the same address. The second pass looks at each
  comment of the input in turn and pushes the node held under its address either to the
  \<^verbatim>\<open>replies\<close> of the node held under its parent address, when that address is
  truthy and in the map, or to the root array.
\<close>

fun indexComments :: "Comment list \<Rightarrow> NodeStore \<Rightarrow> NodeStore" where
  "indexComments [] commentMap = commentMap"
| "indexComments (c # cs) commentMap = indexComments cs (commentMap(uri c \<mapsto> (c, [])))"

fun linkComments :: "Comment list \<Rightarrow> NodeStore \<Rightarrow> string list \<Rightarrow> NodeStore \<times> string list" where
  "linkComments [] commentMap rootComments = (commentMap, rootComments)"
| "linkComments (c # cs) commentMap rootComments =
     (case parentUri c of
        None \<Rightarrow> linkComments cs commentMap (rootComments @ [uri c])
      | Some p \<Rightarrow>
          (case (if p = [] then None else commentMap p) of
             None \<Rightarrow> linkComments cs commentMap (rootComments @ [uri c])
           | Some (parent, parentReplies) \<Rightarrow>
               linkComments cs (commentMap(p \<mapsto> (parent, parentReplies @ [uri c]))) rootComments))"

text \<open>
  \<^verbatim>\<open>sortTree\<close> sorts an array of nodes in place by creation time
  (\<^verbatim>\<open>Array.prototype.sort\<close> is stable, as is \<^const>\<open>sort_key\<close>) and then calls itself
  on the non-empty \<^verbatim>\<open>replies\<close> of each node. The model returns the sorted array with
  the sorted replies nested, which is the object graph that the caller reads. The
  recursion does not end when a node is reachable from itself, so the first argument
  bounds the nesting of the calls, as the call stack does: \<open>None\<close> is the call that
  exhausts it (the source then throws \<^verbatim>\<open>RangeError\<close>).
\<close>

definition sortByDate :: "NodeStore \<Rightarrow> string \<Rightarrow> int" where
  "sortByDate commentMap r = (case commentMap r of None \<Rightarrow> 0 | Some (c, rs) \<Rightarrow> createdAt c)"

fun sortTree :: "nat \<Rightarrow> NodeStore \<Rightarrow> string list \<Rightarrow> CommentTree list option" where
  "sortTree 0 commentMap comments = None"
| "sortTree (Suc depth) commentMap comments =
     those (map (\<lambda>r. case commentMap r of
                        None \<Rightarrow> None
                      | Some (c, rs) \<Rightarrow>
                          if rs \<noteq> [] then map_option (Node c) (sortTree depth commentMap rs)
                          else Some (Node c []))
                (sort_key (sortByDate commentMap) comments))"

definition buildCommentTree :: "nat \<Rightarrow> Comment list \<Rightarrow> CommentTree list option" where
  "buildCommentTree depth comments =
     (let commentMap = indexComments comments Map.empty;
          (linked, rootComments) = linkComments comments commentMap []
      in sortTree depth linked rootComments)"

text \<open>
  \<^verbatim>\<open>fetchComments\<close> (lines 244--290). \<^verbatim>\<open>addMentions\<close> is the loop over the
  mentions (lines 274--279); \<^verbatim>\<open>slice0 xs end\<close> is \<^verbatim>\<open>xs.slice(0, end)\<close>, where a
  negative \<^verbatim>\<open>end\<close> counts from the end of the array; \<^verbatim>\<open>threadReplies\<close> is the
  list collected by the first step, \<^verbatim>\<open>existingUris\<close> the set built at lines 271--272,
  and \<^verbatim>\<open>allComments\<close> the list of that name when the slice is taken. Step 1 and
  step 2 are skipped when the address, respectively the URL, is falsy.
\<close>

fun addMentions :: "Comment list \<Rightarrow> string set \<Rightarrow> Comment list \<Rightarrow> Comment list" where
  "addMentions [] existingUris allComments = allComments"
| "addMentions (mention # mentions) existingUris allComments =
     (if uri mention \<notin> existingUris
      then addMentions mentions (insert (uri mention) existingUris) (allComments @ [mention])
      else addMentions mentions existingUris allComments)"

definition slice0 :: "'a list \<Rightarrow> int \<Rightarrow> 'a list" where
  "slice0 xs end =
     (let len = int (length xs);
          final = (if end < 0 then max (len + end) 0 else min end len)
      in take (nat final) xs)"

record FetchCommentsOptions =
  bskyPostUri :: "string option"
  canonicalUrl :: "string option"
  maxDepth :: "int option"
  maxComments :: "int option"

definition truthy :: "string option \<Rightarrow> string option" where
  "truthy s = (case s of None \<Rightarrow> None | Some v \<Rightarrow> if v = [] then None else Some v)"

definition maxDepthOrDefault :: "FetchCommentsOptions \<Rightarrow> int" where
  "maxDepthOrDefault options = (case maxDepth options of None \<Rightarrow> 3 | Some d \<Rightarrow> d)"

definition maxCommentsOrDefault :: "FetchCommentsOptions \<Rightarrow> int" where
  "maxCommentsOrDefault options = (case maxComments options of None \<Rightarrow> 100 | Some n \<Rightarrow> n)"

definition threadReplies ::
  "(string \<Rightarrow> int \<Rightarrow> Thread option outcome) \<Rightarrow> FetchCommentsOptions \<Rightarrow> Comment list" where
  "threadReplies getPostThread options =
     (case truthy (bskyPostUri options) of
        None \<Rightarrow> []
      | Some postUri \<Rightarrow> fetchBlueskyReplies getPostThread postUri (maxDepthOrDefault options))"

definition existingUris :: "Comment list \<Rightarrow> FetchCommentsOptions \<Rightarrow> string set" where
  "existingUris collected options =
     set (map uri collected)
     \<union> (case truthy (bskyPostUri options) of None \<Rightarrow> {} | Some postUri \<Rightarrow> {postUri})"

definition allComments ::
  "(string \<Rightarrow> int \<Rightarrow> Thread option outcome) \<Rightarrow> (string \<Rightarrow> int \<Rightarrow> Post list option outcome)
    \<Rightarrow> FetchCommentsOptions \<Rightarrow> Comment list" where
  "allComments getPostThread searchPosts options =
     (let collected = threadReplies getPostThread options
      in case truthy (canonicalUrl options) of
           None \<Rightarrow> collected
         | Some url \<Rightarrow>
             let mentions = searchBlueskyMentions searchPosts url
                              (max 10 (maxCommentsOrDefault options - int (length collected)))
             in addMentions mentions (existingUris collected options) collected)"

text \<open>
  The mentions that the loop appends to the collected list: the same loop, started on
  the empty list.
\<close>

definition keptMentions ::
  "(string \<Rightarrow> int \<Rightarrow> Thread option outcome) \<Rightarrow> (string \<Rightarrow> int \<Rightarrow> Post list option outcome)
    \<Rightarrow> FetchCommentsOptions \<Rightarrow> Comment list" where
  "keptMentions getPostThread searchPosts options =
     (let collected = threadReplies getPostThread options
      in case truthy (canonicalUrl options) of
           None \<Rightarrow> []
         | Some url \<Rightarrow>
             addMentions
               (searchBlueskyMentions searchPosts url
                  (max 10 (maxCommentsOrDefault options - int (length collected))))
               (existingUris collected options) [])"

definition fetchComments ::
  "nat \<Rightarrow> (string \<Rightarrow> int \<Rightarrow> Thread option outcome)
    \<Rightarrow> (string \<Rightarrow> int \<Rightarrow> Post list option outcome)
    \<Rightarrow> FetchCommentsOptions \<Rightarrow> CommentTree list option" where
  "fetchComments depth getPostThread searchPosts options =
     (let limitedComments = slice0 (allComments getPostThread searchPosts options)
                              (maxCommentsOrDefault options)
      in buildCommentTree depth limitedComments)"

text \<open>\<^verbatim>\<open>flattenComments\<close> (lines 295--309) and \<^verbatim>\<open>countComments\<close> (lines 314--328).\<close>

fun flattenComments :: "CommentTree list \<Rightarrow> Comment list" where
  "flattenComments [] = []"
| "flattenComments (Node c rs # tree) =
     c # (if rs \<noteq> [] then flattenComments rs else []) @ flattenComments tree"

fun countComments :: "CommentTree list \<Rightarrow> nat" where
  "countComments [] = 0"
| "countComments (Node c rs # tree) =
     Suc (if rs \<noteq> [] then countComments rs else 0) + countComments tree"

section \<open>Proof devices and sample inputs\<close>

text \<open>
  Proof device: the \<open>k\<close> base-32 digits of a value, most significant first, written
  with division and remainder.
\<close>

fun digits32 :: "nat \<Rightarrow> int \<Rightarrow> string" where
  "digits32 0 v = []"
| "digits32 (Suc k) v = digits32 k (v div 32) @ [BASE32_SORTABLE ! nat (v mod 32)]"

definition acceptingAgent :: "unit AtpAgent" where
  "acceptingAgent call =
     Inr \<lparr>resultUri = ''at://'' @ callRepo call @ ''/'' @ callCollection call @ ''/'' @ callRkey call,
          resultCid = ''bafyrei''\<rparr>"

definition loggedIn :: "unit StandardSitePublisher" where
  "loggedIn = \<lparr>agent = Some acceptingAgent, publisherDid = Some ''did:plc:abc'',
     pdsUrl = Some ''https://pds.example''\<rparr>"

definition untitled :: "unit PublishDocumentInput" where
  "untitled = \<lparr>site = Some ''https://myblog.com'', title = None,
     publishedAt = Some ''2024-01-01T00:00:00.000Z'', path = None, description = None,
     updatedAt = None, tags = None, textContent = None, content = None, bskyPostRef = None\<rparr>"

text \<open>
  Proof devices for the comment tree. The replies array of a node; the chain of
  ancestors of an address along a parent function, and the level of an address (the
  number of steps to an address without parent); a store whose replies arrays agree
  with a parent function; what \<^verbatim>\<open>sortTree\<close> does for one element of the sorted
  array; the parent that the second pass of \<^verbatim>\<open>buildCommentTree\<close> accepts for a
  comment; and the store and the root array after the second pass.
\<close>

definition kids :: "NodeStore \<Rightarrow> string \<Rightarrow> string list" where
  "kids m r = (case m r of None \<Rightarrow> [] | Some (c, rs) \<Rightarrow> rs)"

fun anc :: "(string \<Rightarrow> string option) \<Rightarrow> nat \<Rightarrow> string \<Rightarrow> string option" where
  "anc par 0 x = Some x"
| "anc par (Suc k) x = (case par x of None \<Rightarrow> None | Some p \<Rightarrow> anc par k p)"

definition lvl :: "(string \<Rightarrow> string option) \<Rightarrow> string \<Rightarrow> nat \<Rightarrow> bool" where
  "lvl par x k = (\<exists>y. anc par k x = Some y \<and> par y = None)"

definition forest :: "NodeStore \<Rightarrow> (string \<Rightarrow> string option) \<Rightarrow> bool" where
  "forest m par =
     ((\<forall>p x. x \<in> set (kids m p) \<longrightarrow> par x = Some p \<and> x \<in> dom m)
      \<and> (\<forall>p. distinct (kids m p))
      \<and> (\<forall>r c rs. m r = Some (c, rs) \<longrightarrow> uri c = r)
      \<and> (\<forall>x p. par x = Some p \<longrightarrow> p \<in> dom m)
      \<and> finite (dom m))"

definition visit :: "nat \<Rightarrow> NodeStore \<Rightarrow> string \<Rightarrow> CommentTree option" where
  "visit n m r =
     (case m r of
        None \<Rightarrow> None
      | Some (c, rs) \<Rightarrow>
          if rs \<noteq> [] then map_option (Node c) (sortTree n m rs) else Some (Node c []))"

definition validParent :: "string set \<Rightarrow> Comment \<Rightarrow> string option" where
  "validParent D c =
     (case parentUri c of
        None \<Rightarrow> None
      | Some p \<Rightarrow> if p \<noteq> [] \<and> p \<in> D then Some p else None)"

definition covered :: "NodeStore \<Rightarrow> (string \<Rightarrow> string option) \<Rightarrow> string list \<Rightarrow> CommentTree list \<Rightarrow> bool" where
  "covered m par refs ts =
     (distinct (map uri (flattenComments ts))
      \<and> (\<forall>c \<in> set (flattenComments ts).
            (\<exists>rs. m (uri c) = Some (c, rs))
            \<and> (\<exists>j r. r \<in> set refs \<and> anc par j (uri c) = Some r)))"

definition parentOf :: "Comment list \<Rightarrow> string \<Rightarrow> string option" where
  "parentOf cs x =
     (case indexComments cs Map.empty x of
        None \<Rightarrow> None
      | Some (c, rs) \<Rightarrow> validParent (uri ` set cs) c)"

definition linkedStore :: "Comment list \<Rightarrow> NodeStore" where
  "linkedStore cs = fst (linkComments cs (indexComments cs Map.empty) [])"

definition linkedRoots :: "Comment list \<Rightarrow> string list" where
  "linkedRoots cs = snd (linkComments cs (indexComments cs Map.empty) [])"

text \<open>
  Two properties of a list of comments, read along the parent that the second pass
  accepts: a comment reaches a root when following parents, for fewer steps than the
  list is long, ends at a comment without parent; the list has no cycle of parents when
  no comment is its own ancestor.
\<close>

definition reachesRoot :: "Comment list \<Rightarrow> Comment \<Rightarrow> bool" where
  "reachesRoot cs c =
     list_ex (\<lambda>k. case anc (parentOf cs) k (uri c) of
                     None \<Rightarrow> False
                   | Some y \<Rightarrow> parentOf cs y = None)
       [0..<length cs]"

definition noParentCycle :: "Comment list \<Rightarrow> bool" where
  "noParentCycle cs =
     list_all (\<lambda>c. list_all (\<lambda>k. anc (parentOf cs) (Suc k) (uri c) \<noteq> Some (uri c)) [0..<length cs]) cs"

text \<open>
  Sample inputs: a thread with a reply and a reply to that reply; a thread in which
  the network repeats a reply; a search that finds a post of the thread, a new post and
  the root post; a search that finds two new posts.
\<close>

definition sampleAuthor :: Author where
  "sampleAuthor = \<lparr>authorDid = ''did:plc:abc'', handle = ''ann.test'', displayName = None, avatar = None\<rparr>"

definition samplePost :: "string \<Rightarrow> int \<Rightarrow> string option \<Rightarrow> Post" where
  "samplePost u t p =
     \<lparr>post_uri = u, post_cid = ''cid'', post_author = sampleAuthor,
      post_record_text = Some ''hi'', post_record_createdAt = Some t, post_indexedAt = t,
      post_likeCount = None, post_replyCount = None, post_record_reply_parent_uri = p\<rparr>"

definition threadView :: "Post \<Rightarrow> Thread list \<Rightarrow> Thread" where
  "threadView p rs = Thread ''app.bsky.feed.defs#threadViewPost'' (Some p) rs"

definition sampleOptions :: FetchCommentsOptions where
  "sampleOptions = \<lparr>bskyPostUri = Some ''at://r'', canonicalUrl = Some ''https://blog.test/p'',
     maxDepth = None, maxComments = Some 2\<rparr>"

definition sampleThread :: "string \<Rightarrow> int \<Rightarrow> Thread option outcome" where
  "sampleThread u d =
     Returns (Some (threadView (samplePost ''at://r'' 1 None)
       [threadView (samplePost ''at://a'' 10 (Some ''at://r''))
          [threadView (samplePost ''at://b'' 20 (Some ''at://a'')) []]]))"

definition sampleSearch :: "string \<Rightarrow> int \<Rightarrow> Post list option outcome" where
  "sampleSearch q l =
     Returns (Some [samplePost ''at://a'' 10 (Some ''at://r''), samplePost ''at://m'' 5 None,
                    samplePost ''at://r'' 1 None])"

definition plainSearch :: "string \<Rightarrow> int \<Rightarrow> Post list option outcome" where
  "plainSearch q l =
     Returns (Some [samplePost ''at://n'' 7 None, samplePost ''at://m'' 5 None])"

definition repeatedReplyThread :: "string \<Rightarrow> int \<Rightarrow> Thread option outcome" where
  "repeatedReplyThread u d =
     Returns (Some (threadView (samplePost ''at://r'' 1 None)
       [threadView (samplePost ''at://a'' 10 (Some ''at://r''))
          [threadView (samplePost ''at://b'' 20 (Some ''at://a'')) []],
        threadView (samplePost ''at://a'' 10 (Some ''at://r'')) []]))"

definition cA :: Comment where "cA = bskyPostToComment (samplePost ''at://a'' 10 (Some ''at://r''))"
definition cB :: Comment where "cB = bskyPostToComment (samplePost ''at://b'' 20 (Some ''at://a''))"
definition cM :: Comment where "cM = bskyPostToComment (samplePost ''at://m'' 5 None)"
definition cN :: Comment where "cN = bskyPostToComment (samplePost ''at://n'' 7 None)"

text \<open>A thread whose two replies name each other as parent.\<close>

definition loopThread :: "string \<Rightarrow> int \<Rightarrow> Thread option outcome" where
  "loopThread u d =
     Returns (Some (threadView (samplePost ''at://r'' 1 None)
       [threadView (samplePost ''at://a'' 10 (Some ''at://b''))
          [threadView (samplePost ''at://b'' 20 (Some ''at://a'')) []]]))"

definition loopA :: Comment where "loopA = bskyPostToComment (samplePost ''at://a'' 10 (Some ''at://b''))"
definition loopB :: Comment where "loopB = bskyPostToComment (samplePost ''at://b'' 20 (Some ''at://a''))"

definition sampleComment :: "string \<Rightarrow> string option \<Rightarrow> int \<Rightarrow> Comment" where
  "sampleComment u p t =
     \<lparr>uri = u, cid = ''cid'', commentText = ''hi'', author = sampleAuthor, createdAt = t,
      source = Bluesky, sourceUrl = ''https://bsky.app/profile/ann.test/post/1'',
      parentUri = p, likeCount = None, replyCount = None\<rparr>"

section \<open>Lemmas about the identifier generator\<close>

subsection \<open>The loop computes the digits\<close>

lemma and_31_mod: "(v::int) AND 31 = v mod 32"
proof -
  have "(31::int) = mask 5"
    by (simp add: mask_eq_exp_minus_1)
  then have "v AND 31 = take_bit 5 v"
    by (simp add: take_bit_eq_mask)
  then show ?thesis
    by (simp add: take_bit_eq_mod)
qed

lemma encodeLoop_digits32: "encodeLoop k v acc = digits32 k v @ acc"
  by (induction k arbitrary: v acc) (simp_all add: and_31_mod drop_bit_eq_div)

lemma generateTidAt_digits32: "generateTidAt now random = digits32 13 (tidValue now random)"
  by (simp add: generateTidAt_def encodeLoop_digits32)

lemma length_digits32 [simp]: "length (digits32 k v) = k"
  by (induction k arbitrary: v) simp_all

lemma length_BASE32: "length BASE32_SORTABLE = 32"
  by (simp add: BASE32_SORTABLE_def)

lemma digit_in_alphabet: "BASE32_SORTABLE ! nat (v mod 32) \<in> set BASE32_SORTABLE"
  by (rule nth_mem) (simp add: length_BASE32 nat_less_iff)

lemma digits32_alphabet: "set (digits32 k v) \<subseteq> set BASE32_SORTABLE"
  by (induction k arbitrary: v) (simp_all add: digit_in_alphabet)

lemma hd_digits32: "hd (digits32 (Suc k) v) = BASE32_SORTABLE ! nat (v div 32 ^ k mod 32)"
proof (induction k arbitrary: v)
  case 0
  show ?case by simp
next
  case (Suc k)
  have "digits32 (Suc k) (v div 32) \<noteq> []"
    by (metis length_digits32 length_0_conv nat.distinct(1))
  then have "hd (digits32 (Suc (Suc k)) v) = hd (digits32 (Suc k) (v div 32))"
    unfolding digits32.simps(2) [of "Suc k" v] by (rule hd_append2)
  also have "\<dots> = BASE32_SORTABLE ! nat (v div 32 div 32 ^ k mod 32)"
    by (rule Suc.IH)
  also have "v div 32 div 32 ^ k = v div 32 ^ Suc k"
    by (simp add: zdiv_zmult2_eq)
  finally show ?case .
qed

subsection \<open>The composed value\<close>

lemma tidValue_take_bit:
  "tidValue now random = take_bit 63 (push_bit 10 now OR \<lfloor>random * 1024\<rfloor>)"
proof -
  have m: "(0x7FFFFFFFFFFFFFFF::int) = mask 63"
    by (simp add: mask_eq_exp_minus_1)
  show ?thesis
    unfolding tidValue_def Let_def m by (simp only: take_bit_eq_mask)
qed

lemma tidValue_nonneg: "0 \<le> tidValue now random"
  unfolding tidValue_take_bit by (rule take_bit_nonnegative)

lemma tidValue_less: "tidValue now random < 2 ^ 63"
  unfolding tidValue_take_bit by (rule take_bit_int_less_exp)

lemma or_low_bits:
  fixes a c :: int
  assumes "0 \<le> c" and "c < 2 ^ n"
  shows "push_bit n a OR c = push_bit n a + c"
proof -
  have c: "take_bit n c = c"
    using assms by (simp add: take_bit_int_eq_self)
  have "push_bit n a OR c = concat_bit n c a"
    by (simp add: concat_bit_def c or.commute)
  also have "\<dots> = take_bit n c + push_bit n a"
    by (rule concat_bit_eq)
  finally show ?thesis
    by (simp add: c)
qed

lemma clockId_range:
  assumes "0 \<le> random" and "random < 1"
  shows "0 \<le> \<lfloor>random * 1024\<rfloor>" and "\<lfloor>random * 1024\<rfloor> < 1024"
  using assms by (simp_all add: floor_less_iff)

lemma clockField_tidValue:
  assumes "0 \<le> random" and "random < 1"
  shows "clockField (tidValue now random) = \<lfloor>random * 1024\<rfloor>"
proof -
  let ?c = "\<lfloor>random * 1024\<rfloor>"
  have c: "take_bit 10 ?c = ?c"
    using clockId_range [OF assms] by (simp add: take_bit_int_eq_self)
  have m: "(1023::int) = mask 10"
    by (simp add: mask_eq_exp_minus_1)
  have "clockField (tidValue now random)
      = take_bit 10 (take_bit 63 (push_bit 10 now OR ?c))"
    unfolding clockField_def tidValue_take_bit m by (simp only: take_bit_eq_mask)
  also have "\<dots> = take_bit 10 (push_bit 10 now OR ?c)"
    by (simp only: take_bit_take_bit min_def) simp
  also have "\<dots> = take_bit 10 (push_bit 10 now) OR take_bit 10 ?c"
    by (rule take_bit_or)
  also have "take_bit 10 (push_bit 10 now) = 0"
    by (simp add: take_bit_push_bit)
  finally show ?thesis
    by (simp add: c)
qed

lemma tidValue_in_field:
  assumes "0 \<le> now" and "now < 2 ^ 53" and "0 \<le> random" and "random < 1"
  shows "tidValue now random = now * 1024 + \<lfloor>random * 1024\<rfloor>"
proof -
  let ?c = "\<lfloor>random * 1024\<rfloor>"
  have c: "0 \<le> ?c" "?c < 2 ^ 10"
    using clockId_range [OF assms(3,4)] by simp_all
  have sum: "push_bit 10 now OR ?c = now * 1024 + ?c"
    using or_low_bits [OF c, of now] by (simp add: push_bit_eq_mult)
  have "0 \<le> now * 1024 + ?c"
    using assms(1) c(1) by simp
  moreover have "now * 1024 + ?c < 2 ^ 63"
  proof -
    have p: "(2::int) ^ 53 = 9007199254740992" "(2::int) ^ 63 = 9223372036854775808"
      "(2::int) ^ 10 = 1024"
      by simp_all
    show ?thesis
      using assms(2) c(2) unfolding p by linarith
  qed
  ultimately show ?thesis
    unfolding tidValue_take_bit sum by (simp add: take_bit_int_eq_self)
qed

subsection \<open>The clock reading in microseconds\<close>

declare bitLength.simps [simp del]

lemma roundToDouble_exact: "\<bar>x\<bar> < 2 ^ 53 \<Longrightarrow> roundToDouble x = x"
  by (simp add: roundToDouble_def)

lemma bitLength_sample: "bitLength 72057594037929000 = 57"
  by (simp add: bitLength.simps)

lemma roundToDouble_rounds:
  "roundToDouble (72057594037929 * 1000) = 72057594037928992"
  by (simp add: roundToDouble_def bitLength_sample)

subsection \<open>The first character\<close>

lemma first_eight_symbols:
  assumes "i < 8"
  shows "BASE32_SORTABLE ! i \<in> set ''234567ab''"
proof -
  have t: "take 8 BASE32_SORTABLE = ''234567ab''"
    by (simp add: BASE32_SORTABLE_def)
  have "take 8 BASE32_SORTABLE ! i \<in> set (take 8 BASE32_SORTABLE)"
    by (rule nth_mem) (simp add: length_BASE32 assms)
  moreover have "take 8 BASE32_SORTABLE ! i = BASE32_SORTABLE ! i"
    using assms by simp
  ultimately show ?thesis
    by (simp only: t)
qed

lemma leading_digit:
  fixes v :: int
  assumes "0 \<le> v" and "v < 2 ^ 63"
  shows "nat (v div 32 ^ 12 mod 32) < 8"
proof -
  have e: "(32::int) ^ 12 = 1152921504606846976" and f: "(2::int) ^ 63 = 1152921504606846976 * 8"
    by simp_all
  define q where "q = v div 1152921504606846976"
  have "0 \<le> q"
    using assms(1) by (simp add: q_def)
  moreover have "q < 8"
    using assms(2) unfolding f q_def by (simp add: div_less_iff_less_mult)
  ultimately have "nat (q mod 32) < 8"
    by simp
  then show ?thesis
    by (simp only: e q_def)
qed

lemma hd_generateTidAt:
  "hd (generateTidAt now random) \<in> set ''234567ab''"
proof -
  let ?v = "tidValue now random"
  have "hd (generateTidAt now random) = BASE32_SORTABLE ! nat (?v div 32 ^ 12 mod 32)"
    unfolding generateTidAt_digits32 using hd_digits32 [of 12 ?v] by (simp only: eval_nat_numeral)
  moreover have "nat (?v div 32 ^ 12 mod 32) < 8"
    by (rule leading_digit [OF tidValue_nonneg tidValue_less])
  ultimately show ?thesis
    by (simp only: first_eight_symbols)
qed

lemma generateTidAt_regex: "tidRegex (generateTidAt now random)"
proof -
  let ?s = "generateTidAt now random"
  have len: "length ?s = 13"
    by (simp add: generateTidAt_digits32)
  then obtain c cs where s: "?s = c # cs"
    by (cases ?s) simp_all
  have "c \<in> set ''234567ab''"
    using hd_generateTidAt [of now random] by (simp only: s list.sel)
  then have "c \<in> set ''234567abcdefghij''"
    by auto
  moreover have "length cs = 12"
    using len by (simp add: s)
  moreover have "set cs \<subseteq> set BASE32_SORTABLE"
    using digits32_alphabet [of 13 "tidValue now random"]
    by (simp add: generateTidAt_digits32 [symmetric] s)
  then have "list_all (\<lambda>d. d \<in> set BASE32_SORTABLE) cs"
    by (auto simp: list_all_iff)
  ultimately show ?thesis
    by (simp add: tidRegex_def s)
qed

subsection \<open>The encoding preserves order\<close>

lemma alphabet_sorted: "sorted_wrt (<) BASE32_SORTABLE"
  by (simp add: BASE32_SORTABLE_def)

lemma alphabet_mono: "i < j \<Longrightarrow> j < 32 \<Longrightarrow> BASE32_SORTABLE ! i < BASE32_SORTABLE ! j"
  using alphabet_sorted by (simp add: sorted_wrt_iff_nth_less length_BASE32)

lemma digits32_mono:
  "0 \<le> v \<Longrightarrow> v < w \<Longrightarrow> w < 32 ^ k \<Longrightarrow> digits32 k v < digits32 k w"
proof (induction k arbitrary: v w)
  case 0
  then show ?case by simp
next
  case (Suc k)
  let ?a = "BASE32_SORTABLE ! nat (v mod 32)" and ?b = "BASE32_SORTABLE ! nat (w mod 32)"
  have le: "v div 32 \<le> w div 32"
    using Suc.prems by (simp add: zdiv_mono1)
  show ?case
  proof (cases "v div 32 = w div 32")
    case True
    have "v mod 32 < w mod 32"
      using Suc.prems(2) True by (metis add_less_cancel_left mult_div_mod_eq)
    moreover have "0 \<le> v mod 32" "w mod 32 < 32"
      by simp_all
    ultimately have "?a < ?b"
      by (intro alphabet_mono) (simp_all add: nat_less_iff nat_mono_iff)
    then have "(digits32 k (w div 32) @ [?a], digits32 k (w div 32) @ [?b])
        \<in> lexord {(u, v). u < v}"
      by (intro lexord_append_leftI) simp
    then show ?thesis
      by (simp add: True list_less_def)
  next
    case False
    with le have lt: "v div 32 < w div 32"
      by simp
    have "0 \<le> v div 32"
      using Suc.prems by simp
    moreover have "w div 32 < 32 ^ k"
      using Suc.prems by (simp add: div_less_iff_less_mult mult.commute)
    ultimately have "digits32 k (v div 32) < digits32 k (w div 32)"
      using lt by (intro Suc.IH)
    then have "(digits32 k (v div 32), digits32 k (w div 32)) \<in> lexord {(u, v). u < v}"
      by (simp add: list_less_def)
    then have "(digits32 k (v div 32) @ [?a], digits32 k (w div 32) @ [?b])
        \<in> lexord {(u, v). u < v}"
      by (rule lexord_sufI) simp
    then show ?thesis
      by (simp add: list_less_def)
  qed
qed

section \<open>Claims about the identifier generator\<close>

text \<open>
  C1. Whatever the clock reads and whatever the random source draws, the string returned
  by \<^verbatim>\<open>generateTid\<close> has 13 characters, the first among \<^verbatim>\<open>234567abcdefghij\<close> and
  the other twelve in the 32-symbol alphabet: it matches the record-key pattern. This
  holds for every integer value of \<^verbatim>\<open>now\<close>, hence also where the product
  \<^verbatim>\<open>Date.now() * 1000\<close> is rounded.
\<close>

theorem generateTid_matches_regex:
  "tidRegex (generateTid dateNow random) \<and> tidRegex (generateTidAt now random)"
  by (simp add: generateTid_def generateTidAt_regex)

theorem generateTid_matches_regex_witness:
  "tidRegex (generateTid 1700000000000 (1 / 2))
   \<and> generateTid 1700000000000 (1 / 2) = ''3ke6kg3wk22k2''"
  using generateTid_matches_regex [of 1700000000000 "1 / 2" 0]
  by (simp add: generateTid_def roundToDouble_exact generateTidAt_def tidValue_def BASE32_SORTABLE_def eval_nat_numeral)

lemma generateTid_mono:
  assumes "0 \<le> t1" and "t1 < t2" and "t2 * 1000 < 2 ^ 53"
    and "0 \<le> r1" and "r1 < 1" and "0 \<le> r2" and "r2 < 1"
  shows "generateTid t1 r1 < generateTid t2 r2"
proof -
  let ?c1 = "\<lfloor>r1 * 1024\<rfloor>" and ?c2 = "\<lfloor>r2 * 1024\<rfloor>"
  have t1: "0 \<le> t1 * 1000" "t1 * 1000 < 2 ^ 53" and t2: "0 \<le> t2 * 1000"
    using assms(1-3) by simp_all
  have v1: "tidValue (t1 * 1000) r1 = t1 * 1000 * 1024 + ?c1"
    by (rule tidValue_in_field [OF t1 assms(4,5)])
  have v2: "tidValue (t2 * 1000) r2 = t2 * 1000 * 1024 + ?c2"
    by (rule tidValue_in_field [OF t2 assms(3) assms(6,7)])
  have "?c1 < 1024" and "0 \<le> ?c2"
    using clockId_range [OF assms(4,5)] clockId_range [OF assms(6,7)] by simp_all
  then have "tidValue (t1 * 1000) r1 < tidValue (t2 * 1000) r2"
    unfolding v1 v2 using assms(2) by linarith
  moreover have "tidValue (t2 * 1000) r2 < 32 ^ 13"
    using tidValue_less [of "t2 * 1000" r2] by simp
  moreover have "roundToDouble (t1 * 1000) = t1 * 1000" "roundToDouble (t2 * 1000) = t2 * 1000"
    using t1 t2 assms(3) by (simp_all add: roundToDouble_exact)
  ultimately show ?thesis
    unfolding generateTid_def generateTidAt_digits32
    by (simp only: digits32_mono tidValue_nonneg)
qed

lemma encodeLoop_mono:
  assumes "0 \<le> v" and "v < w" and "w < 2 ^ 64"
  shows "encodeLoop 13 v [] < encodeLoop 13 w []"
proof -
  have "w < 32 ^ 13"
    using assms(3) by simp
  then show ?thesis
    unfolding encodeLoop_digits32 append_Nil2 using assms(1,2) by (intro digits32_mono)
qed

text \<open>
  C2. Two calls whose clock readings \<open>t1 < t2\<close> (in milliseconds) both fit the 53-bit
  timestamp field once converted to microseconds (a field of bits holds no negative
  number, so \<open>0 \<le> t1\<close>) return strings in the same strict order, whatever the two
  clock-identifier draws are; and the encoding loop maps any two 64-bit values to
  strings in the order of the values.
\<close>

theorem generateTid_monotone:
  "(0 \<le> t1 \<and> t1 < t2 \<and> t2 * 1000 < 2 ^ 53
      \<and> 0 \<le> r1 \<and> r1 < 1 \<and> 0 \<le> r2 \<and> r2 < 1 \<longrightarrow>
      generateTid t1 r1 < generateTid t2 r2)
   \<and> (0 \<le> v \<and> v < w \<and> w < 2 ^ 64 \<longrightarrow>
      encodeLoop 13 v [] < encodeLoop 13 w [])"
  using generateTid_mono [of t1 t2 r1 r2] encodeLoop_mono [of v w] by blast

theorem generateTid_monotone_witness:
  "(0::int) \<le> 1700000000000 \<and> (1700000000000::int) < 1700000000001
   \<and> (1700000000001::int) * 1000 < 2 ^ 53
   \<and> (0::real) \<le> 2047 / 2048 \<and> (2047 / 2048 :: real) < 1
   \<and> generateTid 1700000000000 (2047 / 2048) < generateTid 1700000000001 0
   \<and> (31::int) < 32 \<and> (32::int) < 2 ^ 64
   \<and> encodeLoop 13 31 [] < encodeLoop 13 32 []"
  using generateTid_monotone [of 1700000000000 1700000000001 "2047 / 2048" 0 31 32]
  by simp

text \<open>
  C6, as the code has it. The clock identifier is \<^verbatim>\<open>Math.floor(Math.random() * 1024)\<close>:
  for a draw in \<open>[0, 1)\<close> the low ten bits of the composed value are exactly that
  number, and it lies in \<open>[0, 1024)\<close>. The value 1023 is reached, so the bound 1023 of
  the claim is one too small.
\<close>

theorem clockId_below_1024:
  assumes "0 \<le> random" and "random < 1"
  shows "clockField (tidValue now random) = \<lfloor>random * 1024\<rfloor>
    \<and> 0 \<le> clockField (tidValue now random)
    \<and> clockField (tidValue now random) < 1024"
  using clockField_tidValue [OF assms] clockId_range [OF assms] by simp

theorem clockId_below_1024_witness:
  "(0::real) \<le> 1 / 2 \<and> (1 / 2 :: real) < 1
   \<and> clockField (tidValue (1700000000000 * 1000) (1 / 2)) = 512"
  using clockId_below_1024 [of "1 / 2" "1700000000000 * 1000"] by simp

theorem clockId_reaches_1023:
  "(0::real) \<le> 2047 / 2048 \<and> (2047 / 2048 :: real) < 1
   \<and> \<not> clockField (tidValue (1700000000000 * 1000) (2047 / 2048)) < 1023"
  by (simp add: clockField_def tidValue_def)

text \<open>
  C10. The composed value is below \<open>2 ^ 63\<close> and thirteen characters of five bits
  cover 65 bit positions, so the leading character encodes a number below 8: it is one
  of \<^verbatim>\<open>234567ab\<close>, for every clock reading (and every integer value of
  \<^verbatim>\<open>now\<close>) and every draw.
\<close>

theorem generateTid_first_char:
  "hd (generateTid dateNow random) \<in> set ''234567ab''
   \<and> hd (generateTidAt now random) \<in> set ''234567ab''"
  by (simp only: generateTid_def hd_generateTidAt simp_thms)

theorem generateTid_first_char_witness:
  "hd (generateTid 8000000000000 (2047 / 2048)) \<in> set ''234567ab''
   \<and> hd (generateTid 8000000000000 (2047 / 2048)) = CHR ''b''"
  using generateTid_first_char [of 8000000000000 "2047 / 2048" 0]
  by (simp add: generateTid_def roundToDouble_exact generateTidAt_def tidValue_def BASE32_SORTABLE_def eval_nat_numeral)

section \<open>Claims about record addresses\<close>

lemma parseAtUri_format:
  assumes "d \<noteq> []" and "list_all notSlash d"
    and "c \<noteq> []" and "list_all notSlash c"
    and "k \<noteq> []" and "\<not> list_ex isLineTerminator k"
  shows "parseAtUri (''at://'' @ d @ ''/'' @ c @ ''/'' @ k)
    = Some \<lparr>did = d, collection = c, rkey = k\<rparr>"
proof -
  have slash: "\<not> notSlash CHR ''/''"
    by (simp add: notSlash_def)
  have tw: "takeWhile notSlash (xs @ CHR ''/'' # ys) = xs"
    and dw: "dropWhile notSlash (xs @ CHR ''/'' # ys) = CHR ''/'' # ys"
    if "list_all notSlash xs" for xs ys
    using that slash by (simp_all add: list_all_iff takeWhile_append2 dropWhile_append2)
  let ?u = "''at://'' @ d @ ''/'' @ c @ ''/'' @ k"
  have scheme: "take 5 ?u = ''at://''"
    and rest: "drop 5 ?u = d @ CHR ''/'' # (c @ CHR ''/'' # k)"
    by simp_all
  show ?thesis
    unfolding parseAtUri_def Let_def scheme rest
      tw [OF assms(2)] dw [OF assms(2)] tw [OF assms(4)] dw [OF assms(4)] list.sel
    using assms(1,3,5,6) by simp
qed

text \<open>
  C9, as the code has it. Formatting a document or publication address and parsing it
  back returns the identity, the collection and the key, for every identity that is
  non-empty and has no slash and every key that is non-empty and has no line terminator.
  An empty identity, or a key with a line feed in it, makes the pattern fail and the
  parse return \<^verbatim>\<open>null\<close>.
\<close>

theorem parseAtUri_roundtrip:
  assumes "d \<noteq> []" and "CHR ''/'' \<notin> set d"
    and "k \<noteq> []" and "\<not> list_ex isLineTerminator k"
  shows "parseAtUri (getDocumentAtUri d k)
      = Some \<lparr>did = d, collection = ''site.standard.document'', rkey = k\<rparr>
    \<and> parseAtUri (getPublicationAtUri d k)
      = Some \<lparr>did = d, collection = ''site.standard.publication'', rkey = k\<rparr>"
proof -
  have d: "list_all notSlash d"
    using assms(2) by (auto simp: list_all_iff notSlash_def)
  have doc: "list_all notSlash ''site.standard.document''"
    and pub: "list_all notSlash ''site.standard.publication''"
    by (simp_all add: notSlash_def)
  have "getDocumentAtUri d k = ''at://'' @ d @ ''/'' @ ''site.standard.document'' @ ''/'' @ k"
    and "getPublicationAtUri d k = ''at://'' @ d @ ''/'' @ ''site.standard.publication'' @ ''/'' @ k"
    by (simp_all add: getDocumentAtUri_def getPublicationAtUri_def)
  then show ?thesis
    using parseAtUri_format [OF assms(1) d _ doc assms(3,4)]
      parseAtUri_format [OF assms(1) d _ pub assms(3,4)]
    by simp
qed

theorem parseAtUri_roundtrip_witness:
  "parseAtUri (getDocumentAtUri ''did:plc:abc123'' ''3ke6kg3wk22k2'')
      = Some \<lparr>did = ''did:plc:abc123'', collection = ''site.standard.document'',
               rkey = ''3ke6kg3wk22k2''\<rparr>
   \<and> parseAtUri (getPublicationAtUri ''did:plc:abc123'' ''3ke6kg3wk22k2'')
      = Some \<lparr>did = ''did:plc:abc123'', collection = ''site.standard.publication'',
               rkey = ''3ke6kg3wk22k2''\<rparr>"
  using parseAtUri_roundtrip [of "''did:plc:abc123''" "''3ke6kg3wk22k2''"]
  by (simp add: isLineTerminator_def)

theorem parseAtUri_roundtrip_fails:
  "CHR ''/'' \<notin> set ([] :: string)
   \<and> parseAtUri (getDocumentAtUri [] ''3ke6kg3wk22k2'') = None
   \<and> CHR ''/'' \<notin> set ''did:plc:abc123'' \<and> [CHR ''a'', CHR 0x0A, CHR ''b''] \<noteq> []
   \<and> parseAtUri (getDocumentAtUri ''did:plc:abc123'' [CHR ''a'', CHR 0x0A, CHR ''b'']) = None"
  by (simp add: parseAtUri_def getDocumentAtUri_def notSlash_def isLineTerminator_def)

section \<open>Claims about publishing\<close>

text \<open>
  C5, as the code has it. \<^verbatim>\<open>publishDocument\<close> makes no check of its input: the
  fields \<^verbatim>\<open>site\<close>, \<^verbatim>\<open>title\<close> and \<^verbatim>\<open>publishedAt\<close> are required by the
  TypeScript type alone. A publisher that is logged in issues exactly one create-record
  call for every input, with a fresh identifier as key and a record holding the fields
  that are present, and hands back what the remote answers. The only failure before the
  call is that of a publisher that is not logged in.
\<close>

theorem publishDocument_always_calls:
  "(publisherDid this = Some d \<and> d \<noteq> [] \<and> agent this = Some a \<longrightarrow>
      snd (publishDocument this dateNow random input)
        = [CreateRecord d COLLECTIONS_DOCUMENT (generateTid dateNow random)
             (cleanRecord (documentRecord input))]
      \<and> fst (publishDocument this dateNow random input)
        = (case a (CreateRecord d COLLECTIONS_DOCUMENT (generateTid dateNow random)
                    (cleanRecord (documentRecord input))) of
             Inl message \<Rightarrow> Inl (RemoteFailure message)
           | Inr response \<Rightarrow> Inr response))
   \<and> (publisherDid this = None \<or> publisherDid this = Some [] \<or> agent this = None \<longrightarrow>
      publishDocument this dateNow random input = (Inl NotLoggedIn, []))"
  by (auto simp: publishDocument_def getDid_def getAgent_def Let_def
      split: sum.splits option.splits)

theorem publishDocument_always_calls_witness:
  "snd (publishDocument loggedIn 1700000000000 (1 / 2) untitled)
     = [CreateRecord ''did:plc:abc'' ''site.standard.document'' ''3ke6kg3wk22k2''
         [(''$type'', Str ''site.standard.document''),
          (''site'', Str ''https://myblog.com''),
          (''publishedAt'', Str ''2024-01-01T00:00:00.000Z'')]]
   \<and> publishDocument (loggedIn\<lparr>agent := None\<rparr>) 1700000000000 (1 / 2) untitled
     = (Inl NotLoggedIn, [])"
  using publishDocument_always_calls
      [of loggedIn "''did:plc:abc''" acceptingAgent 1700000000000 "1 / 2" untitled]
    publishDocument_always_calls
      [of "loggedIn\<lparr>agent := None\<rparr>" "''did:plc:abc''" acceptingAgent 1700000000000 "1 / 2"
        untitled]
  by (simp add: loggedIn_def untitled_def documentRecord_def cleanRecord_def
      COLLECTIONS_DOCUMENT_def generateTid_def roundToDouble_exact generateTidAt_def tidValue_def BASE32_SORTABLE_def
      eval_nat_numeral)

theorem publishDocument_untitled_is_sent:
  "title untitled = None
   \<and> publishDocument loggedIn 1700000000000 (1 / 2) untitled =
     (Inr \<lparr>resultUri = ''at://did:plc:abc/site.standard.document/3ke6kg3wk22k2'',
          resultCid = ''bafyrei''\<rparr>,
      [CreateRecord ''did:plc:abc'' ''site.standard.document'' ''3ke6kg3wk22k2''
        [(''$type'', Str ''site.standard.document''),
         (''site'', Str ''https://myblog.com''),
         (''publishedAt'', Str ''2024-01-01T00:00:00.000Z'')]])"
  by (simp add: publishDocument_def getDid_def getAgent_def loggedIn_def untitled_def
      acceptingAgent_def documentRecord_def cleanRecord_def COLLECTIONS_DOCUMENT_def Let_def
      generateTid_def roundToDouble_exact generateTidAt_def tidValue_def BASE32_SORTABLE_def eval_nat_numeral)

section \<open>Lemmas about comment aggregation\<close>

lemmas fixtures = sampleOptions_def sampleThread_def sampleSearch_def plainSearch_def
  repeatedReplyThread_def threadView_def cA_def cB_def cM_def cN_def
  loopThread_def loopA_def loopB_def
lemmas fetch_defs = fetchComments_def allComments_def threadReplies_def existingUris_def
  maxDepthOrDefault_def maxCommentsOrDefault_def truthy_def fetchBlueskyReplies_def
  searchBlueskyMentions_def slice0_def buildCommentTree_def sortByDate_def keptMentions_def
  Let_def

lemma uri_sample [simp]: "uri (bskyPostToComment (samplePost u t p)) = u"
  "createdAt (bskyPostToComment (samplePost u t p)) = t"
  "parentUri (bskyPostToComment (samplePost u t p)) = (case p of None \<Rightarrow> None | Some q \<Rightarrow> if q = [] then None else Some q)"
  by (simp_all add: bskyPostToComment_def samplePost_def Let_def)

subsection \<open>Lists of optional results\<close>

lemma those_map_iff:
  "those (map g xs) = Some ts \<longleftrightarrow> list_all2 (\<lambda>x t. g x = Some t) xs ts"
proof (induction xs arbitrary: ts)
  case Nil
  show ?case by auto
next
  case (Cons x xs)
  show ?case
  proof (cases "g x")
    case None
    then show ?thesis by (auto simp: list_all2_Cons1)
  next
    case (Some t)
    then show ?thesis
      using Cons.IH by (cases "those (map g xs)") (auto simp: list_all2_Cons1)
  qed
qed

lemma those_map_total:
  assumes "\<And>x. x \<in> set xs \<Longrightarrow> \<exists>t. g x = Some t"
  shows "\<exists>ts. those (map g xs) = Some ts"
  using assms
proof (induction xs)
  case Nil
  show ?case by simp
next
  case (Cons x xs)
  then obtain t ts where "g x = Some t" and "those (map g xs) = Some ts"
    by (meson list.set_intros)
  then show ?case by simp
qed

lemma sortTree_Suc: "sortTree (Suc n) m refs = those (map (visit n m) (sort_key (sortByDate m) refs))"
  unfolding visit_def by simp

subsection \<open>Flattening and counting\<close>

lemma flattenComments_Node: "flattenComments [Node c rs] = c # flattenComments rs"
  by simp

lemma flattenComments_Cons: "flattenComments (t # ts) = flattenComments [t] @ flattenComments ts"
  by (cases t) simp

lemma countComments_flatten: "countComments ts = length (flattenComments ts)"
  by (induction ts rule: flattenComments.induct) simp_all

lemma roots_in_flatten: "nodeComment ` set ts \<subseteq> set (flattenComments ts)"
  by (induction ts rule: flattenComments.induct) auto

lemma distinct_roots:
  "distinct (map uri (flattenComments ts)) \<Longrightarrow> distinct (map (uri \<circ> nodeComment) ts)"
proof (induction ts rule: flattenComments.induct)
  case 1
  show ?case by simp
next
  case (2 c rs tree)
  have "uri ` nodeComment ` set tree \<subseteq> uri ` set (flattenComments tree)"
    using roots_in_flatten [of tree] by blast
  with 2 show ?case
    by (auto simp: image_comp)
qed

subsection \<open>Ancestors and levels\<close>

lemma anc_add: "anc par (j + k) y = Option.bind (anc par j y) (anc par k)"
  by (induction j arbitrary: y) (simp_all split: option.splits)

lemma anc_Suc_right: "anc par (Suc j) y = Option.bind (anc par j y) par"
proof -
  have "anc par 1 z = par z" for z
    by (simp split: option.splits)
  then show ?thesis
    using anc_add [of par j 1 y] by (simp cong: Option.bind_cong)
qed

lemma lvl_unique:
  assumes "lvl par x k" and "lvl par x j"
  shows "k = j"
proof -
  have no: "\<not> (lvl par x a \<and> lvl par x (a + Suc d))" for a d
  proof
    assume *: "lvl par x a \<and> lvl par x (a + Suc d)"
    then obtain y where y: "anc par a x = Some y" "par y = None"
      by (auto simp: lvl_def)
    then have "anc par (a + Suc d) x = None"
      unfolding anc_add by simp
    with * show False
      by (auto simp: lvl_def)
  qed
  show ?thesis
  proof (rule ccontr)
    assume "k \<noteq> j"
    then consider d where "j = k + Suc d" | d where "k = j + Suc d"
      by (metis add_Suc_right less_imp_Suc_add linorder_neqE_nat)
    then show False
      using no assms by cases auto
  qed
qed

lemma lvl_below:
  assumes "anc par j y = Some x" and "lvl par x l"
  shows "lvl par y (j + l)"
  using assms by (auto simp: lvl_def anc_add)

lemma lvl_child:
  assumes "par x = Some r" and "lvl par r l"
  shows "lvl par x (Suc l)"
  using assms by (auto simp: lvl_def)

subsection \<open>Sorting a forest: no address twice, and the call returns\<close>

lemma coveredD:
  assumes "covered m par refs ts"
  shows "distinct (map uri (flattenComments ts))"
    and "\<And>c. c \<in> set (flattenComments ts) \<Longrightarrow> \<exists>rs. m (uri c) = Some (c, rs)"
    and "\<And>c. c \<in> set (flattenComments ts) \<Longrightarrow> \<exists>j r. r \<in> set refs \<and> anc par j (uri c) = Some r"
  using assms unfolding covered_def by blast+

lemma covered_list:
  assumes one: "\<And>r t. r \<in> set xs \<Longrightarrow> g r = Some t \<Longrightarrow> covered m par [r] [t]"
    and lv: "\<And>r. r \<in> set xs \<Longrightarrow> lvl par r l"
    and all: "list_all2 (\<lambda>r t. g r = Some t) xs ts"
    and dist: "distinct xs"
  shows "covered m par xs ts"
  using all one lv dist
proof (induction xs ts rule: list_all2_induct)
  case Nil
  show ?case by (simp add: covered_def)
next
  case (Cons x xs t ts)
  have "covered m par [x] [t]"
    using Cons.prems(1) [of x t] Cons.hyps(1) by simp
  note h = coveredD [OF this]
  have "covered m par xs ts"
    using Cons.prems Cons.IH by simp
  note t = coveredD [OF this]
  have disj: "uri c1 \<noteq> uri c2"
    if c1: "c1 \<in> set (flattenComments [t])" and c2: "c2 \<in> set (flattenComments ts)" for c1 c2
  proof
    assume eq: "uri c1 = uri c2"
    from h(3) [OF c1] obtain j1 where j1: "anc par j1 (uri c1) = Some x"
      by auto
    from t(3) [OF c2] obtain j2 r where j2: "r \<in> set xs" "anc par j2 (uri c2) = Some r"
      by blast
    have "lvl par x l" and "lvl par r l"
      using Cons.prems(2) j2(1) by simp_all
    then have "lvl par (uri c1) (j1 + l)" and "lvl par (uri c1) (j2 + l)"
      using j1 j2(2) unfolding eq by (blast intro: lvl_below)+
    then have "j1 + l = j2 + l"
      by (rule lvl_unique)
    with j1 j2 eq have "x = r"
      by simp
    with j2(1) Cons.prems(3) show False
      by simp
  qed
  have f: "flattenComments (t # ts) = flattenComments [t] @ flattenComments ts"
    by (rule flattenComments_Cons)
  have "uri ` set (flattenComments [t]) \<inter> uri ` set (flattenComments ts) = {}"
    using disj by blast
  then have d: "distinct (map uri (flattenComments (t # ts)))"
    unfolding f using h(1) t(1) by simp
  have e: "\<exists>rs. m (uri c) = Some (c, rs)" if "c \<in> set (flattenComments (t # ts))" for c
    using that h(2) [of c] t(2) [of c] unfolding f by auto
  have a: "\<exists>j r. r \<in> set (x # xs) \<and> anc par j (uri c) = Some r"
    if "c \<in> set (flattenComments (t # ts))" for c
  proof -
    from that consider "c \<in> set (flattenComments [t])" | "c \<in> set (flattenComments ts)"
      unfolding f by auto
    then show ?thesis
    proof cases
      case 1
      from h(3) [OF this] show ?thesis
        by simp blast
    next
      case 2
      from t(3) [OF this] show ?thesis
        by simp blast
    qed
  qed
  show ?case
    unfolding covered_def using d e a by blast
qed

lemma sortTree_covered:
  assumes f: "forest m par"
  shows "sortTree n m refs = Some ts \<Longrightarrow> distinct refs
    \<Longrightarrow> (\<And>r. r \<in> set refs \<Longrightarrow> r \<in> dom m \<and> lvl par r l)
    \<Longrightarrow> covered m par refs ts"
proof (induction n arbitrary: refs ts l)
  case 0
  then show ?case by simp
next
  case (Suc n)
  let ?xs = "sort_key (sortByDate m) refs"
  have all: "list_all2 (\<lambda>r t. visit n m r = Some t) ?xs ts"
    using Suc.prems(1) by (simp only: sortTree_Suc those_map_iff)
  have one: "covered m par [r] [t]" if r: "r \<in> set ?xs" and v: "visit n m r = Some t" for r t
  proof -
    from r have rin: "r \<in> dom m" and rl: "lvl par r l"
      using Suc.prems(3) [of r] by simp_all
    then obtain c rs where mr: "m r = Some (c, rs)"
      by auto
    then have uc: "uri c = r"
      using f by (auto simp: forest_def)
    show ?thesis
    proof (cases "rs = []")
      case True
      with v mr have "t = Node c []"
        by (simp add: visit_def)
      then show ?thesis
        using mr uc by (auto simp: covered_def intro: exI [of _ 0])
    next
      case False
      with v mr obtain ks where ks: "sortTree n m rs = Some ks" and t: "t = Node c ks"
        by (auto simp: visit_def)
      have rs: "rs = kids m r"
        using mr by (simp add: kids_def)
      have drs: "distinct rs"
        using f unfolding rs by (simp add: forest_def)
      have ch: "par x = Some r \<and> x \<in> dom m" if "x \<in> set rs" for x
        using f that unfolding rs by (simp add: forest_def)
      have "covered m par rs ks"
      proof (rule Suc.IH [OF ks drs])
        fix x assume "x \<in> set rs"
        then show "x \<in> dom m \<and> lvl par x (Suc l)"
          using ch [of x] rl by (simp add: lvl_child)
      qed
      then have dk: "distinct (map uri (flattenComments ks))"
        and ck: "\<And>c'. c' \<in> set (flattenComments ks) \<Longrightarrow>
            (\<exists>rs'. m (uri c') = Some (c', rs'))
            \<and> (\<exists>j x. x \<in> set rs \<and> anc par j (uri c') = Some x)"
        by (auto simp: covered_def)
      have up: "\<exists>j. anc par (Suc j) (uri c') = Some r" if "c' \<in> set (flattenComments ks)" for c'
      proof -
        from ck [OF that] obtain j x where "x \<in> set rs" "anc par j (uri c') = Some x"
          by blast
        then have "anc par (Suc j) (uri c') = Some r"
          using ch [of x] by (simp only: anc_Suc_right) simp
        then show ?thesis ..
      qed
      have fresh: "r \<notin> uri ` set (flattenComments ks)"
      proof
        assume "r \<in> uri ` set (flattenComments ks)"
        then obtain c' where "c' \<in> set (flattenComments ks)" "uri c' = r"
          by auto
        with up obtain j where "anc par (Suc j) r = Some r"
          by auto
        then have "lvl par r (Suc j + l)"
          using rl by (rule lvl_below)
        with rl have "Suc j + l = l"
          using lvl_unique by blast
        then show False by simp
      qed
      have "distinct (map uri (flattenComments [t]))"
        using dk fresh by (simp add: t uc)
      moreover have "(\<exists>rs'. m (uri c') = Some (c', rs')) \<and> (\<exists>j. anc par j (uri c') = Some r)"
        if "c' \<in> set (flattenComments [t])" for c'
      proof (cases "c' = c")
        case True
        then show ?thesis
          using mr uc by (auto intro: exI [of _ 0])
      next
        case False
        with that have "c' \<in> set (flattenComments ks)"
          by (simp add: t)
        then show ?thesis
          using ck [of c'] up [of c'] by blast
      qed
      ultimately show ?thesis
        unfolding covered_def by auto
    qed
  qed
  have "covered m par ?xs ts"
  proof (rule covered_list [where g = "visit n m" and l = l])
    show "list_all2 (\<lambda>r t. visit n m r = Some t) ?xs ts"
      by (rule all)
    show "distinct ?xs"
      using Suc.prems(2) by simp
    show "\<And>r. r \<in> set ?xs \<Longrightarrow> lvl par r l"
      using Suc.prems(3) by simp
    show "\<And>r t. r \<in> set ?xs \<Longrightarrow> visit n m r = Some t \<Longrightarrow> covered m par [r] [t]"
      by (rule one)
  qed
  then show ?case
    by (simp add: covered_def)
qed

lemma lvl_bound:
  assumes f: "forest m par" and x: "x \<in> dom m" and l: "lvl par x k"
  shows "k < card (dom m)"
proof -
  from l obtain z where z: "anc par k x = Some z" "par z = None"
    by (auto simp: lvl_def)
  have step: "\<exists>y. anc par i x = Some y \<and> y \<in> dom m \<and> lvl par y (k - i)" if "i \<le> k" for i
  proof -
    have "anc par (i + (k - i)) x = Some z"
      using that z by simp
    then obtain y where y: "anc par i x = Some y" "anc par (k - i) y = Some z"
      unfolding anc_add by (cases "anc par i x") simp_all
    have "y \<in> dom m"
    proof (cases i)
      case 0
      with y x show ?thesis by simp
    next
      case (Suc i')
      have "Option.bind (anc par i' x) par = Some y"
        using y(1) unfolding Suc anc_Suc_right .
      then obtain w where "anc par i' x = Some w" "par w = Some y"
        by (cases "anc par i' x") simp_all
      then show ?thesis
        using f by (auto simp: forest_def)
    qed
    with y z show ?thesis
      by (auto simp: lvl_def)
  qed
  let ?f = "\<lambda>i. the (anc par i x)"
  have "inj_on ?f {..k}"
  proof (rule inj_onI)
    fix i j assume ij: "i \<in> {..k}" "j \<in> {..k}" and eq: "?f i = ?f j"
    from step [of i] step [of j] ij eq have "k - i = k - j"
      using lvl_unique by fastforce
    with ij show "i = j" by simp
  qed
  moreover have "?f ` {..k} \<subseteq> dom m"
    using step by fastforce
  moreover have "finite (dom m)"
    using f by (simp add: forest_def)
  ultimately have "card {..k} \<le> card (dom m)"
    by (rule card_inj_on_le)
  then show ?thesis by simp
qed

lemma sortTree_returns:
  assumes f: "forest m par"
  shows "(\<And>r. r \<in> set refs \<Longrightarrow> r \<in> dom m \<and> lvl par r l)
    \<Longrightarrow> card (dom m) \<le> n + l \<Longrightarrow> 0 < n \<Longrightarrow> \<exists>ts. sortTree n m refs = Some ts"
proof (induction n arbitrary: refs l)
  case 0
  then show ?case by simp
next
  case (Suc n)
  have "\<exists>t. visit n m r = Some t" if "r \<in> set (sort_key (sortByDate m) refs)" for r
  proof -
    from that have rin: "r \<in> dom m" and rl: "lvl par r l"
      using Suc.prems(1) [of r] by simp_all
    then obtain c rs where mr: "m r = Some (c, rs)"
      by auto
    show ?thesis
    proof (cases "rs = []")
      case True
      with mr show ?thesis by (simp add: visit_def)
    next
      case False
      have rs: "rs = kids m r"
        using mr by (simp add: kids_def)
      have ch: "x \<in> dom m \<and> lvl par x (Suc l)" if "x \<in> set rs" for x
        using f that rl unfolding rs by (simp add: forest_def lvl_child)
      from False obtain x where "x \<in> set rs"
        by (cases rs) auto
      then have "Suc l < card (dom m)"
        using ch lvl_bound [OF f] by blast
      with Suc.prems(2) have n: "0 < n" and cd: "card (dom m) \<le> n + Suc l"
        by simp_all
      have "\<exists>ks. sortTree n m rs = Some ks"
        by (rule Suc.IH [OF ch cd n])
      with mr False show ?thesis
        by (auto simp: visit_def)
    qed
  qed
  then show ?case
    unfolding sortTree_Suc by (rule those_map_total)
qed

subsection \<open>The two passes of buildCommentTree\<close>

lemma indexComments_other: "q \<notin> uri ` set cs \<Longrightarrow> indexComments cs m q = m q"
  by (induction cs arbitrary: m) auto

lemma indexComments_dom: "dom (indexComments cs m) = dom m \<union> uri ` set cs"
  by (induction cs arbitrary: m) auto

lemma indexComments_entries:
  assumes "\<And>q c rs. m q = Some (c, rs) \<Longrightarrow> uri c = q \<and> rs = [] \<and> c \<in> S"
    and "set cs \<subseteq> S"
    and "indexComments cs m q = Some (c, rs)"
  shows "uri c = q \<and> rs = [] \<and> c \<in> S"
  using assms
proof (induction cs arbitrary: m)
  case Nil
  then show ?case by simp
next
  case (Cons a cs)
  show ?case
  proof (rule Cons.IH [of "m(uri a \<mapsto> (a, []))"])
    show "indexComments cs (m(uri a \<mapsto> (a, []))) q = Some (c, rs)"
      using Cons.prems(3) by simp
    show "set cs \<subseteq> S"
      using Cons.prems(2) by simp
    show "uri c' = q' \<and> rs' = [] \<and> c' \<in> S"
      if "(m(uri a \<mapsto> (a, []))) q' = Some (c', rs')" for q' c' rs'
      using that Cons.prems(1) [of q' c' rs'] Cons.prems(2)
      by (auto split: if_splits)
  qed
qed

lemma indexComments_distinct:
  "distinct (map uri cs) \<Longrightarrow> c \<in> set cs \<Longrightarrow> indexComments cs m (uri c) = Some (c, [])"
proof (induction cs arbitrary: m)
  case Nil
  then show ?case by simp
next
  case (Cons a cs)
  show ?case
  proof (cases "c = a")
    case True
    with Cons.prems(1) show ?thesis
      by (simp add: indexComments_other)
  next
    case False
    with Cons show ?thesis by simp
  qed
qed

lemma linkComments_closed:
  "linkComments cs m roots =
     (\<lambda>q. map_option (\<lambda>(pc, rs). (pc, rs @ map uri (filter (\<lambda>c. validParent (dom m) c = Some q) cs))) (m q),
      roots @ map uri (filter (\<lambda>c. validParent (dom m) c = None) cs))"
proof (induction cs arbitrary: m roots)
  case Nil
  have "map_option (\<lambda>(pc, rs). (pc, rs)) (m q) = m q" for q
    by (cases "m q") auto
  then show ?case by (simp add: option.map_ident)
next
  case (Cons c cs)
  show ?case
  proof (cases "validParent (dom m) c")
    case None
    then have "linkComments (c # cs) m roots = linkComments cs m (roots @ [uri c])"
      by (auto simp: validParent_def split: option.splits if_splits)
    with None show ?thesis
      by (simp add: Cons.IH)
  next
    case (Some p)
    then have p: "parentUri c = Some p" "p \<noteq> []" "p \<in> dom m"
      by (auto simp: validParent_def split: option.splits if_splits)
    then obtain parent prs where mp: "m p = Some (parent, prs)"
      by auto
    let ?m = "m(p \<mapsto> (parent, prs @ [uri c]))"
    have dm: "dom ?m = dom m"
      using p(3) by auto
    have "linkComments (c # cs) m roots = linkComments cs ?m roots"
      using p mp by simp
    also have "\<dots> =
      (\<lambda>q. map_option (\<lambda>(pc, rs). (pc, rs @ map uri (filter (\<lambda>c. validParent (dom m) c = Some q) cs))) (?m q),
       roots @ map uri (filter (\<lambda>c. validParent (dom m) c = None) cs))"
      unfolding Cons.IH dm ..
    also have "\<dots> =
      (\<lambda>q. map_option (\<lambda>(pc, rs). (pc, rs @ map uri (filter (\<lambda>c. validParent (dom m) c = Some q) (c # cs)))) (m q),
       roots @ map uri (filter (\<lambda>c. validParent (dom m) c = None) (c # cs)))"
      using Some mp by (auto simp: fun_eq_iff)
    finally show ?thesis .
  qed
qed

subsection \<open>The linked store of comments with distinct addresses\<close>

lemma buildCommentTree_linked:
  "buildCommentTree n cs = sortTree n (linkedStore cs) (linkedRoots cs)"
  by (simp add: buildCommentTree_def linkedStore_def linkedRoots_def case_prod_beta Let_def)

lemma linkedStore_closed:
  "linkedStore cs q =
     map_option (\<lambda>(pc, rs). (pc, rs @ map uri (filter (\<lambda>c. validParent (uri ` set cs) c = Some q) cs)))
       (indexComments cs Map.empty q)"
  unfolding linkedStore_def linkComments_closed by (simp add: indexComments_dom)

lemma linkedRoots_closed:
  "linkedRoots cs = map uri (filter (\<lambda>c. validParent (uri ` set cs) c = None) cs)"
  unfolding linkedRoots_def linkComments_closed by (simp add: indexComments_dom)

lemma indexed_entry:
  assumes "indexComments cs Map.empty q = Some (c, rs)"
  shows "uri c = q" and "rs = []" and "c \<in> set cs"
  using indexComments_entries [of Map.empty "set cs" cs q c rs] assms by simp_all

lemma linkedStore_entry:
  assumes "linkedStore cs q = Some (c, rs)"
  shows "uri c = q" and "c \<in> set cs"
    and "rs = map uri (filter (\<lambda>c. validParent (uri ` set cs) c = Some q) cs)"
proof -
  from assms obtain rs0 where i: "indexComments cs Map.empty q = Some (c, rs0)"
    and rs: "rs = rs0 @ map uri (filter (\<lambda>c. validParent (uri ` set cs) c = Some q) cs)"
    unfolding linkedStore_closed by (cases "indexComments cs Map.empty q") auto
  from indexed_entry [OF i] rs
  show "uri c = q" and "c \<in> set cs"
    and "rs = map uri (filter (\<lambda>c. validParent (uri ` set cs) c = Some q) cs)"
    by simp_all
qed

lemma dom_linkedStore: "dom (linkedStore cs) = uri ` set cs"
proof -
  have "dom (linkedStore cs) = dom (indexComments cs Map.empty)"
    by (auto simp: linkedStore_closed dom_def)
  then show ?thesis
    by (simp add: indexComments_dom)
qed

lemma kids_linkedStore:
  assumes "x \<in> set (kids (linkedStore cs) p)"
  shows "\<exists>c. c \<in> set cs \<and> validParent (uri ` set cs) c = Some p \<and> x = uri c"
proof (cases "linkedStore cs p")
  case None
  with assms show ?thesis by (simp add: kids_def)
next
  case (Some e)
  obtain c rs where e: "e = (c, rs)"
    by (cases e)
  from assms linkedStore_entry(3) [OF Some [unfolded e]] show ?thesis
    by (auto simp: kids_def Some e)
qed

lemma distinct_kids_linkedStore:
  assumes "distinct (map uri cs)"
  shows "distinct (kids (linkedStore cs) p)"
proof (cases "linkedStore cs p")
  case None
  then show ?thesis by (simp add: kids_def)
next
  case (Some e)
  obtain c rs where e: "e = (c, rs)"
    by (cases e)
  from assms linkedStore_entry(3) [OF Some [unfolded e]] show ?thesis
    by (simp add: kids_def Some e distinct_map_filter)
qed

lemma parentOf_uri:
  assumes "distinct (map uri cs)" and "c \<in> set cs"
  shows "parentOf cs (uri c) = validParent (uri ` set cs) c"
  using indexComments_distinct [OF assms, of Map.empty] by (simp add: parentOf_def)

lemma parentOf_dom:
  assumes "parentOf cs x = Some p"
  shows "p \<in> uri ` set cs"
  using assms by (auto simp: parentOf_def validParent_def split: option.splits if_splits)

lemma linked_forest:
  assumes d: "distinct (map uri cs)"
  shows "forest (linkedStore cs) (parentOf cs)"
  unfolding forest_def
proof (intro conjI allI impI)
  fix p x assume "x \<in> set (kids (linkedStore cs) p)"
  then obtain c where c: "c \<in> set cs" "validParent (uri ` set cs) c = Some p" "x = uri c"
    using kids_linkedStore by blast
  then show "parentOf cs x = Some p" and "x \<in> dom (linkedStore cs)"
    by (simp_all add: parentOf_uri [OF d] dom_linkedStore)
next
  fix p show "distinct (kids (linkedStore cs) p)"
    by (rule distinct_kids_linkedStore [OF d])
next
  fix r c rs assume "linkedStore cs r = Some (c, rs)"
  then show "uri c = r"
    by (rule linkedStore_entry(1))
next
  fix x p assume "parentOf cs x = Some p"
  then show "p \<in> dom (linkedStore cs)"
    unfolding dom_linkedStore by (rule parentOf_dom)
next
  show "finite (dom (linkedStore cs))"
    by (simp add: dom_linkedStore)
qed

lemma linkedRoots_level:
  assumes d: "distinct (map uri cs)" and r: "r \<in> set (linkedRoots cs)"
  shows "r \<in> dom (linkedStore cs) \<and> lvl (parentOf cs) r 0"
proof -
  from r obtain c where c: "c \<in> set cs" "validParent (uri ` set cs) c = None" "r = uri c"
    unfolding linkedRoots_closed by auto
  then show ?thesis
    by (simp add: lvl_def parentOf_uri [OF d] dom_linkedStore)
qed

lemma distinct_linkedRoots:
  "distinct (map uri cs) \<Longrightarrow> distinct (linkedRoots cs)"
  unfolding linkedRoots_closed by (rule distinct_map_filter)

lemma buildCommentTree_distinct:
  assumes d: "distinct (map uri cs)" and b: "buildCommentTree n cs = Some ts"
  shows "distinct (map uri (flattenComments ts))" and "set (flattenComments ts) \<subseteq> set cs"
proof -
  have cov: "covered (linkedStore cs) (parentOf cs) (linkedRoots cs) ts"
  proof (rule sortTree_covered [OF linked_forest [OF d], where l = 0])
    show "sortTree n (linkedStore cs) (linkedRoots cs) = Some ts"
      using b by (simp only: buildCommentTree_linked)
    show "distinct (linkedRoots cs)"
      by (rule distinct_linkedRoots [OF d])
    show "\<And>r. r \<in> set (linkedRoots cs) \<Longrightarrow> r \<in> dom (linkedStore cs) \<and> lvl (parentOf cs) r 0"
      by (rule linkedRoots_level [OF d])
  qed
  then show "distinct (map uri (flattenComments ts))"
    by (simp add: covered_def)
  show "set (flattenComments ts) \<subseteq> set cs"
  proof
    fix c assume "c \<in> set (flattenComments ts)"
    with cov obtain rs where "linkedStore cs (uri c) = Some (c, rs)"
      unfolding covered_def by blast
    then show "c \<in> set cs"
      by (rule linkedStore_entry(2))
  qed
qed

lemma buildCommentTree_returns:
  assumes d: "distinct (map uri cs)" and n: "length cs < n"
  shows "\<exists>ts. buildCommentTree n cs = Some ts"
proof -
  have "card (uri ` set cs) \<le> card (set cs)"
    by (rule card_image_le) simp
  also have "\<dots> \<le> length cs"
    by (rule card_length)
  finally have "card (dom (linkedStore cs)) \<le> n + 0" and "0 < n"
    using n by (simp_all add: dom_linkedStore)
  then have "\<exists>ts. sortTree n (linkedStore cs) (linkedRoots cs) = Some ts"
    using linkedRoots_level [OF d]
    by (intro sortTree_returns [OF linked_forest [OF d], where l = 0])
  then show ?thesis
    by (simp only: buildCommentTree_linked)
qed

subsection \<open>Lists with the same elements\<close>

lemma mset_single_list: "mset xs = {#x#} \<Longrightarrow> xs = [x]"
  by (cases xs) auto

lemma mset_pair_list: "mset xs = {#x, y#} \<Longrightarrow> xs = [x, y] \<or> xs = [y, x]"
proof (cases xs)
  case Nil
  assume "mset xs = {#x, y#}"
  with Nil show ?thesis by simp
next
  case (Cons z zs)
  assume m: "mset xs = {#x, y#}"
  then have "z \<in># {#x, y#}"
    unfolding Cons by (metis mset.simps(2) union_single_eq_member)
  then consider "z = x" | "z = y"
    by auto
  then show ?thesis
  proof cases
    case 1
    with m Cons have "mset zs = {#y#}" by simp
    with 1 Cons show ?thesis by (simp add: mset_single_list)
  next
    case 2
    with m Cons have "mset zs = {#x#}" by (simp add: add_mset_commute)
    with 2 Cons show ?thesis by (simp add: mset_single_list)
  qed
qed

lemma linkedStore_lookup:
  assumes "distinct (map uri cs)" and "x \<in> set cs"
  shows "linkedStore cs (uri x)
    = Some (x, map uri (filter (\<lambda>c. validParent (uri ` set cs) c = Some (uri x)) cs))"
  unfolding linkedStore_closed using indexComments_distinct [OF assms, of Map.empty] by simp

subsection \<open>Deeper call stacks\<close>

lemma visit_mono:
  assumes "\<And>refs ts. sortTree n m refs = Some ts \<Longrightarrow> sortTree (Suc n) m refs = Some ts"
    and "visit n m r = Some t"
  shows "visit (Suc n) m r = Some t"
  using assms by (auto simp: visit_def split: option.splits if_splits simp del: sortTree.simps)

lemma sortTree_deeper: "sortTree n m refs = Some ts \<Longrightarrow> sortTree (Suc n) m refs = Some ts"
proof (induction n arbitrary: refs ts)
  case 0
  then show ?case by simp
next
  case (Suc n)
  from Suc.prems have "list_all2 (\<lambda>r t. visit n m r = Some t) (sort_key (sortByDate m) refs) ts"
    by (simp only: sortTree_Suc those_map_iff)
  then have "list_all2 (\<lambda>r t. visit (Suc n) m r = Some t) (sort_key (sortByDate m) refs) ts"
    by (rule list_all2_mono) (rule visit_mono [OF Suc.IH])
  then show ?case
    by (simp only: sortTree_Suc those_map_iff)
qed

lemma buildCommentTree_deeper:
  assumes "buildCommentTree n cs = Some ts" and "n \<le> n'"
  shows "buildCommentTree n' cs = Some ts"
proof -
  have "sortTree (n + k) (linkedStore cs) (linkedRoots cs) = Some ts" for k
    using assms(1) by (induction k) (simp_all add: buildCommentTree_linked sortTree_deeper del: sortTree.simps)
  from this [of "n' - n"] assms(2) show ?thesis
    by (simp add: buildCommentTree_linked)
qed

lemma buildCommentTree_total:
  assumes "distinct (map uri cs)"
  shows "\<exists>ts. \<forall>n > length cs. buildCommentTree n cs = Some ts"
proof -
  from buildCommentTree_returns [OF assms, of "Suc (length cs)"]
  obtain ts where "buildCommentTree (Suc (length cs)) cs = Some ts"
    by auto
  then have "\<forall>n > length cs. buildCommentTree n cs = Some ts"
    by (auto intro: buildCommentTree_deeper)
  then show ?thesis ..
qed

subsection \<open>The mention loop\<close>

lemma addMentions_acc: "addMentions ms E acc = acc @ addMentions ms E []"
proof (induction ms arbitrary: E acc)
  case Nil
  show ?case by simp
next
  case (Cons a ms)
  show ?case
    using Cons.IH [of "insert (uri a) E" "acc @ [a]"] Cons.IH [of "insert (uri a) E" "[a]"]
      Cons.IH [of E acc]
    by simp
qed

lemma addMentions_fresh:
  "distinct (map uri (addMentions ms E []))
   \<and> uri ` set (addMentions ms E []) = uri ` set ms - E
   \<and> set (addMentions ms E []) \<subseteq> set ms"
proof (induction ms arbitrary: E)
  case Nil
  show ?case by simp
next
  case (Cons a ms)
  show ?case
  proof (cases "uri a \<in> E")
    case True
    with Cons.IH [of E] show ?thesis by auto
  next
    case False
    have "addMentions (a # ms) E [] = a # addMentions ms (insert (uri a) E) []"
      using False addMentions_acc [of ms "insert (uri a) E" "[a]"] by simp
    with Cons.IH [of "insert (uri a) E"] False show ?thesis by auto
  qed
qed

lemma slice0_take: "0 \<le> e \<Longrightarrow> slice0 xs e = take (nat e) xs"
  by (auto simp: slice0_def Let_def min_def)

lemma slice0_prefix: "\<exists>k. slice0 xs e = take k xs"
  unfolding slice0_def Let_def by blast

lemma allComments_split:
  "allComments gpt sp opts = threadReplies gpt opts @ keptMentions gpt sp opts"
  unfolding allComments_def keptMentions_def Let_def
  by (cases "truthy (canonicalUrl opts)") (simp_all add: addMentions_acc [of _ _ "threadReplies gpt opts"])

lemma keptMentions_fresh:
  "distinct (map uri (keptMentions gpt sp opts))"
  "uri ` set (keptMentions gpt sp opts) \<inter> existingUris (threadReplies gpt opts) opts = {}"
proof -
  let ?R = "threadReplies gpt opts"
  have "\<exists>ms. keptMentions gpt sp opts = addMentions ms (existingUris ?R opts) []"
  proof (cases "truthy (canonicalUrl opts)")
    case None
    then have "keptMentions gpt sp opts = addMentions [] (existingUris ?R opts) []"
      by (simp add: keptMentions_def)
    then show ?thesis ..
  next
    case (Some url)
    then show ?thesis
      by (auto simp: keptMentions_def Let_def)
  qed
  then obtain ms where k: "keptMentions gpt sp opts = addMentions ms (existingUris ?R opts) []"
    ..
  show "distinct (map uri (keptMentions gpt sp opts))"
    unfolding k using addMentions_fresh by blast
  have "uri ` set (addMentions ms (existingUris ?R opts) []) = uri ` set ms - existingUris ?R opts"
    using addMentions_fresh by blast
  then show "uri ` set (keptMentions gpt sp opts) \<inter> existingUris ?R opts = {}"
    unfolding k by blast
qed

lemma distinct_allComments:
  assumes "distinct (map uri (threadReplies gpt opts))"
  shows "distinct (map uri (allComments gpt sp opts))"
proof -
  have "uri ` set (keptMentions gpt sp opts) \<inter> uri ` set (threadReplies gpt opts) = {}"
    using keptMentions_fresh(2) [of gpt sp opts] by (auto simp: existingUris_def)
  then show ?thesis
    unfolding allComments_split using assms keptMentions_fresh(1) [of gpt sp opts]
    by (auto simp: distinct_append)
qed

lemma distinct_limited:
  assumes "distinct (map uri xs)"
  shows "distinct (map uri (slice0 xs e))"
proof -
  obtain k where "slice0 xs e = take k xs"
    using slice0_prefix by blast
  then show ?thesis
    using assms by (simp add: take_map [symmetric] distinct_take del: take_map)
qed




lemma length_slice0: "length (slice0 xs e) \<le> length xs"
  using slice0_prefix [of xs e] by auto

subsection \<open>Every comment that reaches a root is in the tree\<close>

lemma reachesRoot_iff: "reachesRoot cs c \<longleftrightarrow> (\<exists>k<length cs. lvl (parentOf cs) (uri c) k)"
  by (auto simp: reachesRoot_def lvl_def list_ex_iff split: option.splits)

lemma anc_dom:
  assumes f: "forest m par"
  shows "x \<in> dom m \<Longrightarrow> anc par j x = Some y \<Longrightarrow> y \<in> dom m"
proof (induction j arbitrary: x)
  case 0
  then show ?case by simp
next
  case (Suc j)
  from Suc.prems(2) obtain p where p: "par x = Some p" and a: "anc par j p = Some y"
    by (auto split: option.splits)
  from f p have "p \<in> dom m"
    unfolding forest_def by blast
  then show ?case
    using a by (rule Suc.IH)
qed

lemma list_all2_pick:
  "list_all2 P xs ys \<Longrightarrow> x \<in> set xs \<Longrightarrow> \<exists>y \<in> set ys. P x y"
  by (induction rule: list_all2_induct) auto

lemma flattenComments_member:
  "t \<in> set ts \<Longrightarrow> set (flattenComments [t]) \<subseteq> set (flattenComments ts)"
proof (induction ts)
  case Nil
  then show ?case by simp
next
  case (Cons s ts)
  have "flattenComments (s # ts) = flattenComments [s] @ flattenComments ts"
    by (rule flattenComments_Cons)
  with Cons show ?case
    by auto
qed

lemma sortTree_reaches:
  assumes f: "forest m par"
    and full: "\<And>x p. x \<in> dom m \<Longrightarrow> par x = Some p \<Longrightarrow> x \<in> set (kids m p)"
  shows "sortTree n m refs = Some ts \<Longrightarrow> r \<in> set refs \<Longrightarrow> anc par j x = Some r \<Longrightarrow> x \<in> dom m
    \<Longrightarrow> x \<in> uri ` set (flattenComments ts)"
proof (induction n arbitrary: refs ts r j x)
  case 0
  then show ?case by simp
next
  case (Suc n)
  from Suc.prems(1) have "those (map (visit n m) (sort_key (sortByDate m) refs)) = Some ts"
    by (simp only: sortTree_Suc)
  then have la: "list_all2 (\<lambda>r t. visit n m r = Some t) (sort_key (sortByDate m) refs) ts"
    by (simp only: those_map_iff)
  have rin: "r \<in> set (sort_key (sortByDate m) refs)"
    using Suc.prems(2) by simp
  from list_all2_pick [OF la rin] obtain t where t: "t \<in> set ts" and v: "visit n m r = Some t"
    by blast
  from v obtain c rs where mr: "m r = Some (c, rs)"
    unfolding visit_def by (cases "m r") auto
  from f mr have uc: "uri c = r"
    unfolding forest_def by blast
  have sub: "set (flattenComments [t]) \<subseteq> set (flattenComments ts)"
    using t by (rule flattenComments_member)
  show ?case
  proof (cases j)
    case 0
    with Suc.prems(3) have "x = r"
      by simp
    moreover from v mr have "\<exists>ts'. t = Node c ts'"
      unfolding visit_def by (cases "rs = []") auto
    then have "c \<in> set (flattenComments [t])"
      by (auto simp: flattenComments_Node)
    ultimately show ?thesis
      using sub uc by blast
  next
    case j: (Suc i)
    from Suc.prems(3) have "Option.bind (anc par i x) par = Some r"
      unfolding j anc_Suc_right .
    then obtain y where y: "anc par i x = Some y" and py: "par y = Some r"
      by (cases "anc par i x") auto
    have "y \<in> dom m"
      using Suc.prems(4) y by (rule anc_dom [OF f])
    then have "y \<in> set (kids m r)"
      using py by (rule full)
    then have yrs: "y \<in> set rs"
      by (simp add: kids_def mr)
    then have "rs \<noteq> []"
      by auto
    with v mr obtain ts' where s: "sortTree n m rs = Some ts'" and t': "t = Node c ts'"
      unfolding visit_def by auto
    from Suc.IH [OF s yrs y Suc.prems(4)] have "x \<in> uri ` set (flattenComments ts')" .
    then have "x \<in> uri ` set (flattenComments [t])"
      by (auto simp: t' flattenComments_Node)
    then show ?thesis
      using sub by blast
  qed
qed

lemma linkedStore_full:
  assumes d: "distinct (map uri cs)" and x: "x \<in> dom (linkedStore cs)"
    and p: "parentOf cs x = Some p"
  shows "x \<in> set (kids (linkedStore cs) p)"
proof -
  from x obtain c where c: "c \<in> set cs" "uri c = x"
    by (auto simp: dom_linkedStore)
  from p have vp: "validParent (uri ` set cs) c = Some p"
    using parentOf_uri [OF d c(1)] by (simp add: c(2))
  from parentOf_dom [OF p] obtain pc where pc: "pc \<in> set cs" "uri pc = p"
    by auto
  have "linkedStore cs p
      = Some (pc, map uri (filter (\<lambda>c. validParent (uri ` set cs) c = Some p) cs))"
    using linkedStore_lookup [OF d pc(1)] by (simp add: pc(2))
  then have "kids (linkedStore cs) p = map uri (filter (\<lambda>c. validParent (uri ` set cs) c = Some p) cs)"
    by (simp add: kids_def)
  then show ?thesis
    using c vp by auto
qed

lemma linkedRoots_full:
  assumes d: "distinct (map uri cs)" and c: "c \<in> set cs" and p: "parentOf cs (uri c) = None"
  shows "uri c \<in> set (linkedRoots cs)"
proof -
  have "validParent (uri ` set cs) c = None"
    using parentOf_uri [OF d c] p by simp
  then show ?thesis
    using c by (auto simp: linkedRoots_closed)
qed

lemma buildCommentTree_reaches:
  assumes d: "distinct (map uri cs)" and b: "buildCommentTree n cs = Some ts"
    and c: "c \<in> set cs" and l: "lvl (parentOf cs) (uri c) k"
  shows "c \<in> set (flattenComments ts)"
proof -
  let ?m = "linkedStore cs"
  let ?par = "parentOf cs"
  note f = linked_forest [OF d]
  have xd: "uri c \<in> dom ?m"
    using c by (simp add: dom_linkedStore)
  from l obtain y where y: "anc ?par k (uri c) = Some y" and py: "?par y = None"
    unfolding lvl_def by blast
  have "y \<in> dom ?m"
    using xd y by (rule anc_dom [OF f])
  then obtain cy where cy: "cy \<in> set cs" "uri cy = y"
    by (auto simp: dom_linkedStore)
  have yr: "y \<in> set (linkedRoots cs)"
    using linkedRoots_full [OF d cy(1)] py by (simp add: cy(2))
  from b have s: "sortTree n ?m (linkedRoots cs) = Some ts"
    by (simp only: buildCommentTree_linked)
  note full = linkedStore_full [OF d]
  have "uri c \<in> uri ` set (flattenComments ts)"
    using f full s yr y xd by (rule sortTree_reaches)
  then obtain c' where c': "c' \<in> set (flattenComments ts)" "uri c' = uri c"
    by auto
  with buildCommentTree_distinct(2) [OF d b] have "c' \<in> set cs"
    by blast
  with d c c'(2) have "c' = c"
    by (auto simp: distinct_map inj_on_def)
  with c'(1) show ?thesis
    by simp
qed

lemma buildCommentTree_rooted:
  assumes d: "distinct (map uri cs)" and b: "buildCommentTree n cs = Some ts"
    and c: "c \<in> set (flattenComments ts)"
  shows "\<exists>k<length cs. lvl (parentOf cs) (uri c) k"
proof -
  let ?m = "linkedStore cs"
  let ?par = "parentOf cs"
  note f = linked_forest [OF d]
  from b have s: "sortTree n ?m (linkedRoots cs) = Some ts"
    by (simp only: buildCommentTree_linked)
  have cov: "covered ?m ?par (linkedRoots cs) ts"
    using s distinct_linkedRoots [OF d] linkedRoots_level [OF d]
    by (rule sortTree_covered [OF f])
  from coveredD(3) [OF cov c] obtain j r where r: "r \<in> set (linkedRoots cs)"
    and a: "anc ?par j (uri c) = Some r"
    by blast
  have "lvl ?par r 0"
    using linkedRoots_level [OF d r] by simp
  with a have l: "lvl ?par (uri c) (j + 0)"
    by (rule lvl_below)
  from coveredD(2) [OF cov c] have "uri c \<in> dom ?m"
    by auto
  from lvl_bound [OF f this l] have "j < card (dom ?m)"
    by simp
  also have "\<dots> \<le> length cs"
    unfolding dom_linkedStore by (metis card_length length_map set_map)
  finally show ?thesis
    using l by auto
qed

lemma buildCommentTree_members:
  assumes d: "distinct (map uri cs)" and b: "buildCommentTree n cs = Some ts"
  shows "set (flattenComments ts) = {c \<in> set cs. reachesRoot cs c}"
    and "mset (flattenComments ts) = mset (filter (reachesRoot cs) cs)"
proof -
  show s: "set (flattenComments ts) = {c \<in> set cs. reachesRoot cs c}"
    using buildCommentTree_rooted [OF d b] buildCommentTree_reaches [OF d b]
      buildCommentTree_distinct(2) [OF d b]
    unfolding reachesRoot_iff by blast
  have "distinct (flattenComments ts)"
    using buildCommentTree_distinct(1) [OF d b] by (rule distinct_map [THEN iffD1, THEN conjunct1])
  moreover have "distinct (filter (reachesRoot cs) cs)"
    using d by (simp add: distinct_map)
  moreover have "set (flattenComments ts) = set (filter (reachesRoot cs) cs)"
    using s by auto
  ultimately show "mset (flattenComments ts) = mset (filter (reachesRoot cs) cs)"
    by (simp only: set_eq_iff_mset_eq_distinct)
qed

subsection \<open>Without a cycle of parents every comment reaches a root\<close>

lemma anc_defined:
  assumes no: "\<And>k. k < N \<Longrightarrow> \<not> lvl (parentOf cs) x k" and x: "x \<in> uri ` set cs"
  shows "k \<le> N \<Longrightarrow> \<exists>y \<in> uri ` set cs. anc (parentOf cs) k x = Some y"
proof (induction k)
  case 0
  then show ?case using x by simp
next
  case (Suc k)
  then obtain y where y: "y \<in> uri ` set cs" "anc (parentOf cs) k x = Some y"
    by auto
  from no [of k] Suc.prems y(2) have "parentOf cs y \<noteq> None"
    by (auto simp: lvl_def)
  then obtain p where p: "parentOf cs y = Some p"
    by auto
  have "anc (parentOf cs) (Suc k) x = Some p"
    unfolding anc_Suc_right by (simp add: y(2) p)
  with parentOf_dom [OF p] show ?case
    by blast
qed

lemma noParentCycle_reaches:
  assumes no: "noParentCycle cs" and c: "c \<in> set cs"
  shows "reachesRoot cs c"
proof (rule ccontr)
  assume "\<not> reachesRoot cs c"
  then have nl: "\<And>k. k < length cs \<Longrightarrow> \<not> lvl (parentOf cs) (uri c) k"
    unfolding reachesRoot_iff by blast
  let ?par = "parentOf cs"
  let ?D = "uri ` set cs"
  let ?N = "length cs"
  let ?f = "\<lambda>k. the (anc ?par k (uri c))"
  have cD: "uri c \<in> ?D"
    using c by simp
  have def: "\<exists>y \<in> ?D. anc ?par k (uri c) = Some y" if "k \<le> ?N" for k
    using nl cD that by (rule anc_defined)
  have "?f ` {..?N} \<subseteq> ?D"
    using def by fastforce
  then have "card (?f ` {..?N}) \<le> card ?D"
    by (intro card_mono) simp_all
  also have "\<dots> \<le> ?N"
    by (metis card_length length_map set_map)
  also have "\<dots> < card {..?N}"
    by simp
  finally have "\<not> inj_on ?f {..?N}"
    using pigeonhole by blast
  then obtain i j where ij: "i \<le> ?N" "j \<le> ?N" "i \<noteq> j" "?f i = ?f j"
    by (auto simp: inj_on_def)
  have cyc: "\<exists>y \<in> ?D. \<exists>k < ?N. anc ?par (Suc k) y = Some y"
    if lt: "i < j" and j: "j \<le> ?N" and eq: "?f i = ?f j" for i j
  proof -
    from def [of i] lt j obtain y where y: "y \<in> ?D" "anc ?par i (uri c) = Some y"
      by auto
    from def [OF j] eq y(2) have aj: "anc ?par j (uri c) = Some y"
      by auto
    have "anc ?par (i + (j - i)) (uri c) = anc ?par (j - i) y"
      unfolding anc_add by (simp add: y(2))
    with lt aj have "anc ?par (j - i) y = Some y"
      by simp
    moreover from lt obtain k where k: "j - i = Suc k"
      by (metis Suc_diff_Suc)
    ultimately have "anc ?par (Suc k) y = Some y"
      by simp
    moreover have "k < ?N"
      using k j by linarith
    ultimately show ?thesis
      using y(1) by blast
  qed
  have "\<exists>y \<in> ?D. \<exists>k < ?N. anc ?par (Suc k) y = Some y"
  proof (cases "i < j")
    case True
    then show ?thesis using ij by (intro cyc [of i j]) simp_all
  next
    case False
    with ij have "j < i" by simp
    then show ?thesis using ij by (intro cyc [of j i]) simp_all
  qed
  then obtain c' k where "c' \<in> set cs" "k < ?N" "anc ?par (Suc k) (uri c') = Some (uri c')"
    by auto
  with no show False
    unfolding noParentCycle_def by (auto simp: list_all_iff)
qed

lemma buildCommentTree_exact:
  assumes d: "distinct (map uri cs)" and no: "noParentCycle cs"
    and b: "buildCommentTree n cs = Some ts"
  shows "mset (flattenComments ts) = mset cs" and "countComments ts = length cs"
proof -
  have "filter (reachesRoot cs) cs = cs"
    using noParentCycle_reaches [OF no] by (simp add: filter_id_conv)
  with buildCommentTree_members(2) [OF d b] show m: "mset (flattenComments ts) = mset cs"
    by simp
  show "countComments ts = length cs"
    using mset_eq_length [OF m] by (simp add: countComments_flatten)
qed

section \<open>Claims about comment aggregation\<close>

text \<open>
  C3. Four comments with pairwise distinct, non-empty addresses: \<open>a\<close> without parent,
  created at 10; \<open>b\<close>, a reply to \<open>a\<close>, created at 20; \<open>c\<close>, a reply to \<open>a\<close>, created at
  15; \<open>d\<close>, a reply to \<open>b\<close>, created at 30. In whatever order the list holds them,
  \<^verbatim>\<open>buildCommentTree\<close> returns the single root \<open>a\<close> with replies \<open>c\<close> then \<open>b\<close>, and
  \<open>b\<close> with the reply \<open>d\<close> (three nested calls of \<^verbatim>\<open>sortTree\<close> are needed), and
  \<^verbatim>\<open>countComments\<close> of that tree is 4.
\<close>

theorem buildCommentTree_thread_scenario:
  assumes uris: "distinct [uri a, uri b, uri c, uri d]" "uri a \<noteq> []" "uri b \<noteq> []"
    and parents: "parentUri a = None" "parentUri b = Some (uri a)"
      "parentUri c = Some (uri a)" "parentUri d = Some (uri b)"
    and times: "createdAt a = 10" "createdAt b = 20" "createdAt c = 15" "createdAt d = 30"
    and order: "mset cs = mset [a, b, c, d]"
    and depth: "3 \<le> n"
  shows "buildCommentTree n cs = Some [Node a [Node c [], Node b [Node d []]]]
    \<and> countComments [Node a [Node c [], Node b [Node d []]]] = 4"
proof -
  let ?D = "uri ` set cs"
  let ?vp = "validParent ?D"
  let ?m = "linkedStore cs"
  have set_cs: "set cs = {a, b, c, d}"
    using mset_eq_setD [OF order] by simp
  have da: "distinct (map uri [a, b, c, d])"
    using uris(1) by simp
  have "mset (map uri cs) = mset (map uri [a, b, c, d])"
    by (simp only: mset_map order)
  from mset_eq_imp_distinct_iff [OF this] da have dist: "distinct (map uri cs)"
    by (rule iffD2)
  have vp: "?vp a = None" "?vp b = Some (uri a)" "?vp c = Some (uri a)" "?vp d = Some (uri b)"
    using parents uris(2,3) by (simp_all add: validParent_def set_cs)
  have ne: "uri a \<noteq> uri b" "uri a \<noteq> uri c" "uri a \<noteq> uri d"
    "uri b \<noteq> uri a" "uri b \<noteq> uri c" "uri b \<noteq> uri d"
    "uri c \<noteq> uri a" "uri c \<noteq> uri b" "uri c \<noteq> uri d"
    "uri d \<noteq> uri a" "uri d \<noteq> uri b" "uri d \<noteq> uri c"
    using uris(1) by auto
  have filt: "mset (filter P cs) = filter_mset P {#a, b, c, d#}" for P
    by (simp only: mset_filter order mset.simps)
  have roots: "linkedRoots cs = [uri a]"
    unfolding linkedRoots_closed using filt [of "\<lambda>x. ?vp x = None"] vp
    by (simp add: mset_single_list)
  have "mset (filter (\<lambda>x. ?vp x = Some (uri a)) cs) = {#b, c#}"
    using filt [of "\<lambda>x. ?vp x = Some (uri a)"] vp ne by simp
  then have ka: "filter (\<lambda>x. ?vp x = Some (uri a)) cs = [b, c]
      \<or> filter (\<lambda>x. ?vp x = Some (uri a)) cs = [c, b]"
    by (rule mset_pair_list)
  have kb: "filter (\<lambda>x. ?vp x = Some (uri b)) cs = [d]"
    using filt [of "\<lambda>x. ?vp x = Some (uri b)"] vp ne by (simp add: mset_single_list)
  have kc: "filter (\<lambda>x. ?vp x = Some (uri c)) cs = []"
    using filt [of "\<lambda>x. ?vp x = Some (uri c)"] vp ne by simp
  have kd: "filter (\<lambda>x. ?vp x = Some (uri d)) cs = []"
    using filt [of "\<lambda>x. ?vp x = Some (uri d)"] vp ne by simp
  have ma: "?m (uri a) = Some (a, [uri b, uri c]) \<or> ?m (uri a) = Some (a, [uri c, uri b])"
    using linkedStore_lookup [OF dist, of a] ka by (auto simp: set_cs)
  have mb: "?m (uri b) = Some (b, [uri d])"
    using linkedStore_lookup [OF dist, of b] kb by (simp add: set_cs)
  have mc: "?m (uri c) = Some (c, [])"
    using linkedStore_lookup [OF dist, of c] kc by (simp add: set_cs)
  have md: "?m (uri d) = Some (d, [])"
    using linkedStore_lookup [OF dist, of d] kd by (simp add: set_cs)
  have dates: "sortByDate ?m (uri b) = 20" "sortByDate ?m (uri c) = 15"
    by (simp_all add: sortByDate_def mb mc times)
  from depth obtain k where n: "n = Suc (Suc (Suc k))"
    by (metis Suc_le_D numeral_3_eq_3 Suc_le_mono)
  have sb: "sortTree (Suc (Suc k)) ?m [uri b, uri c] = Some [Node c [], Node b [Node d []]]"
    "sortTree (Suc (Suc k)) ?m [uri c, uri b] = Some [Node c [], Node b [Node d []]]"
    by (simp_all add: mb mc md dates)
  from ma have "sortTree (Suc (Suc (Suc k))) ?m [uri a]
      = Some [Node a [Node c [], Node b [Node d []]]]"
  proof
    assume "?m (uri a) = Some (a, [uri b, uri c])"
    then show ?thesis
      by (subst sortTree.simps(2)) (simp add: sb del: sortTree.simps)
  next
    assume "?m (uri a) = Some (a, [uri c, uri b])"
    then show ?thesis
      by (subst sortTree.simps(2)) (simp add: sb del: sortTree.simps)
  qed
  then have "sortTree n ?m (linkedRoots cs) = Some [Node a [Node c [], Node b [Node d []]]]"
    by (simp only: n roots)
  then have "buildCommentTree n cs = Some [Node a [Node c [], Node b [Node d []]]]"
    by (simp only: buildCommentTree_linked)
  then show ?thesis
    by simp
qed

theorem buildCommentTree_thread_scenario_witness:
  "buildCommentTree 3
     [sampleComment ''at://d'' (Some ''at://b'') 30, sampleComment ''at://b'' (Some ''at://a'') 20,
      sampleComment ''at://c'' (Some ''at://a'') 15, sampleComment ''at://a'' None 10]
   = Some [Node (sampleComment ''at://a'' None 10)
            [Node (sampleComment ''at://c'' (Some ''at://a'') 15) [],
             Node (sampleComment ''at://b'' (Some ''at://a'') 20)
               [Node (sampleComment ''at://d'' (Some ''at://b'') 30) []]]]"
  using buildCommentTree_thread_scenario
    [of "sampleComment ''at://a'' None 10" "sampleComment ''at://b'' (Some ''at://a'') 20"
      "sampleComment ''at://c'' (Some ''at://a'') 15" "sampleComment ''at://d'' (Some ''at://b'') 30"
      "[sampleComment ''at://d'' (Some ''at://b'') 30, sampleComment ''at://b'' (Some ''at://a'') 20,
        sampleComment ''at://c'' (Some ''at://a'') 15, sampleComment ''at://a'' None 10]" 3]
  by (simp add: sampleComment_def)

text \<open>
  C4, as the code has it. Let the thread replies have pairwise distinct addresses and let
  \<^verbatim>\<open>maxComments\<close> be non-negative. The list handed to \<^verbatim>\<open>buildCommentTree\<close> is the
  prefix of length \<^verbatim>\<open>maxComments\<close> of the thread replies followed by the search mentions
  that the loop kept, so search mentions only fill the places the thread replies leave.
  The call returns (for every depth of the call stack beyond \<^verbatim>\<open>maxComments\<close>), and the
  tree it returns holds at most \<^verbatim>\<open>maxComments\<close> comments, nested replies counted:
  exactly the comments of that prefix, each once, from which the chain of parents ends
  at a comment without parent in the prefix. When no comment of the prefix is its own
  ancestor these are all of them: the tree holds exactly the comments of the prefix,
  their number being the smaller of \<^verbatim>\<open>maxComments\<close> and the number of comments
  collected, and among them every thread reply when the thread replies are at most
  \<^verbatim>\<open>maxComments\<close>.
\<close>

theorem fetchComments_cap:
  assumes "distinct (map uri (threadReplies getPostThread options))"
    and "0 \<le> maxCommentsOrDefault options"
  shows "fetchComments n getPostThread searchPosts options
      = buildCommentTree n
          (take (nat (maxCommentsOrDefault options))
             (threadReplies getPostThread options @ keptMentions getPostThread searchPosts options))
    \<and> take (nat (maxCommentsOrDefault options))
          (threadReplies getPostThread options @ keptMentions getPostThread searchPosts options)
      = take (nat (maxCommentsOrDefault options)) (threadReplies getPostThread options)
        @ take (nat (maxCommentsOrDefault options) - length (threadReplies getPostThread options))
            (keptMentions getPostThread searchPosts options)
    \<and> (\<forall>ts. fetchComments n getPostThread searchPosts options = Some ts \<longrightarrow>
          countComments ts \<le> nat (maxCommentsOrDefault options)
          \<and> mset (flattenComments ts)
              = mset (filter
                        (reachesRoot
                           (take (nat (maxCommentsOrDefault options))
                              (threadReplies getPostThread options
                               @ keptMentions getPostThread searchPosts options)))
                        (take (nat (maxCommentsOrDefault options))
                           (threadReplies getPostThread options
                            @ keptMentions getPostThread searchPosts options)))
          \<and> (noParentCycle
                 (take (nat (maxCommentsOrDefault options))
                    (threadReplies getPostThread options
                     @ keptMentions getPostThread searchPosts options)) \<longrightarrow>
               mset (flattenComments ts)
                 = mset (take (nat (maxCommentsOrDefault options))
                           (threadReplies getPostThread options
                            @ keptMentions getPostThread searchPosts options))
               \<and> countComments ts
                 = min (nat (maxCommentsOrDefault options))
                     (length (threadReplies getPostThread options
                              @ keptMentions getPostThread searchPosts options))
               \<and> (length (threadReplies getPostThread options)
                     \<le> nat (maxCommentsOrDefault options) \<longrightarrow>
                   set (threadReplies getPostThread options) \<subseteq> set (flattenComments ts))))
    \<and> (\<exists>ts. \<forall>n' > nat (maxCommentsOrDefault options).
          fetchComments n' getPostThread searchPosts options = Some ts)"
proof -
  let ?K = "nat (maxCommentsOrDefault options)"
  let ?R = "threadReplies getPostThread options"
  let ?A = "?R @ keptMentions getPostThread searchPosts options"
  let ?P = "take ?K ?A"
  have f: "fetchComments n' getPostThread searchPosts options = buildCommentTree n' ?P"
    for n'
    by (simp add: fetchComments_def allComments_split slice0_take [OF assms(2)])
  have split: "?P = take ?K ?R @ take (?K - length ?R) (keptMentions getPostThread searchPosts options)"
    by (rule take_append)
  have "distinct (map uri ?A)"
    using distinct_allComments [OF assms(1), of searchPosts] by (simp only: allComments_split)
  then have "distinct (take ?K (map uri ?A))"
    by (rule distinct_take)
  then have d: "distinct (map uri ?P)"
    by (simp only: take_map)
  have tree: "countComments ts \<le> ?K
      \<and> mset (flattenComments ts) = mset (filter (reachesRoot ?P) ?P)
      \<and> (noParentCycle ?P \<longrightarrow>
           mset (flattenComments ts) = mset ?P
           \<and> countComments ts = min ?K (length ?A)
           \<and> (length ?R \<le> ?K \<longrightarrow> set ?R \<subseteq> set (flattenComments ts)))"
    if r: "fetchComments n getPostThread searchPosts options = Some ts" for ts
  proof (intro conjI impI)
    from r have b: "buildCommentTree n ?P = Some ts"
      by (simp only: f)
    note t = buildCommentTree_distinct [OF d b]
    have "countComments ts = length (map uri (flattenComments ts))"
      by (simp add: countComments_flatten)
    also have "\<dots> = card (set (map uri (flattenComments ts)))"
      using distinct_card [OF t(1)] by simp
    also have "\<dots> \<le> card (set (map uri ?P))"
      using t(2) by (intro card_mono) auto
    also have "\<dots> \<le> length (map uri ?P)"
      by (rule card_length)
    also have "\<dots> \<le> ?K"
      by simp
    finally show "countComments ts \<le> ?K" .
    show "mset (flattenComments ts) = mset (filter (reachesRoot ?P) ?P)"
      using d b by (rule buildCommentTree_members(2))
    assume no: "noParentCycle ?P"
    show m: "mset (flattenComments ts) = mset ?P"
      using d no b by (rule buildCommentTree_exact(1))
    have "countComments ts = length ?P"
      using d no b by (rule buildCommentTree_exact(2))
    also have "\<dots> = min ?K (length ?A)"
      by (simp only: length_take min.commute)
    finally show "countComments ts = min ?K (length ?A)" .
    assume "length ?R \<le> ?K"
    then have "set ?R \<subseteq> set ?P"
      by (simp add: split)
    also have "set ?P = set (flattenComments ts)"
      using mset_eq_setD [OF m] by simp
    finally show "set ?R \<subseteq> set (flattenComments ts)" .
  qed
  obtain ts where "\<forall>n' > length ?P. buildCommentTree n' ?P = Some ts"
    using buildCommentTree_total [OF d] by blast
  then have "\<forall>n' > ?K. fetchComments n' getPostThread searchPosts options = Some ts"
    by (simp add: f)
  then have ret: "\<exists>ts. \<forall>n' > ?K. fetchComments n' getPostThread searchPosts options = Some ts"
    ..
  from tree have all: "\<forall>ts. fetchComments n getPostThread searchPosts options = Some ts \<longrightarrow>
      countComments ts \<le> ?K
      \<and> mset (flattenComments ts) = mset (filter (reachesRoot ?P) ?P)
      \<and> (noParentCycle ?P \<longrightarrow>
           mset (flattenComments ts) = mset ?P
           \<and> countComments ts = min ?K (length ?A)
           \<and> (length ?R \<le> ?K \<longrightarrow> set ?R \<subseteq> set (flattenComments ts)))"
    by (intro allI impI)
  show ?thesis
    using f [of n] split all ret by (intro conjI)
qed

theorem fetchComments_cap_witness:
  "distinct (map uri (threadReplies sampleThread sampleOptions))
   \<and> maxCommentsOrDefault sampleOptions = 2
   \<and> threadReplies sampleThread sampleOptions = [cA, cB]
   \<and> keptMentions sampleThread sampleSearch sampleOptions = [cM]
   \<and> noParentCycle [cA, cB]
   \<and> filter (reachesRoot [cA, cB]) [cA, cB] = [cA, cB]
   \<and> fetchComments 3 sampleThread sampleSearch sampleOptions = Some [Node cA [Node cB []]]
   \<and> mset (flattenComments [Node cA [Node cB []]]) = mset [cA, cB]
   \<and> countComments [Node cA [Node cB []]] = 2"
  using fetchComments_cap [of sampleThread sampleOptions 3 sampleSearch]
  by (simp add: fixtures fetch_defs noParentCycle_def reachesRoot_def parentOf_def validParent_def
      eval_nat_numeral)

theorem fetchComments_cap_exceeded:
  "maxCommentsOrDefault (sampleOptions\<lparr>maxComments := Some 3\<rparr>) = 3
   \<and> fetchComments 3 repeatedReplyThread (\<lambda>q l. Returns None)
        (sampleOptions\<lparr>maxComments := Some 3\<rparr>)
      = Some [Node cA [Node cB []], Node cA [Node cB []]]
   \<and> countComments [Node cA [Node cB []], Node cA [Node cB []]] = 4
   \<and> fetchComments 3 sampleThread (\<lambda>q l. Returns None)
        (sampleOptions\<lparr>maxComments := Some (- 1)\<rparr>)
      = Some [Node cA []]
   \<and> countComments [Node cA []] = 1
   \<and> threadReplies loopThread (sampleOptions\<lparr>maxComments := Some 3\<rparr>) = [loopA, loopB]
   \<and> distinct (map uri [loopA, loopB])
   \<and> keptMentions loopThread plainSearch (sampleOptions\<lparr>maxComments := Some 3\<rparr>) = [cN, cM]
   \<and> \<not> noParentCycle [loopA, loopB, cN]
   \<and> filter (reachesRoot [loopA, loopB, cN]) [loopA, loopB, cN] = [cN]
   \<and> fetchComments 3 loopThread plainSearch (sampleOptions\<lparr>maxComments := Some 3\<rparr>)
      = Some [Node cN []]
   \<and> countComments [Node cN []] = 1"
  by (simp add: fixtures fetch_defs noParentCycle_def reachesRoot_def parentOf_def validParent_def
      eval_nat_numeral)

text \<open>
  C7, as the code has it. The collected list is the thread replies followed by the
  search mentions that the loop kept; the kept mentions have pairwise distinct addresses,
  none of which is the address of a thread reply or of the root post. The thread replies
  are taken as the network returns them, so when their addresses are pairwise distinct
  the call returns (for every depth of the call stack beyond the number of collected
  comments) and no address occurs twice among the roots of the returned tree or in its
  flattening.
\<close>

theorem fetchComments_no_duplicates:
  assumes "distinct (map uri (threadReplies getPostThread options))"
  shows "allComments getPostThread searchPosts options
      = threadReplies getPostThread options @ keptMentions getPostThread searchPosts options
    \<and> distinct (map uri (keptMentions getPostThread searchPosts options))
    \<and> uri ` set (keptMentions getPostThread searchPosts options)
        \<inter> existingUris (threadReplies getPostThread options) options = {}
    \<and> (\<forall>ts. fetchComments n getPostThread searchPosts options = Some ts \<longrightarrow>
          distinct (map (uri \<circ> nodeComment) ts) \<and> distinct (map uri (flattenComments ts)))
    \<and> (\<exists>ts. \<forall>n' > length (allComments getPostThread searchPosts options).
          fetchComments n' getPostThread searchPosts options = Some ts)"
proof -
  let ?A = "allComments getPostThread searchPosts options"
  let ?L = "slice0 ?A (maxCommentsOrDefault options)"
  have f: "fetchComments n' getPostThread searchPosts options = buildCommentTree n' ?L" for n'
    by (simp add: fetchComments_def)
  have d: "distinct (map uri ?L)"
    by (intro distinct_limited distinct_allComments assms)
  have flat: "distinct (map (uri \<circ> nodeComment) ts) \<and> distinct (map uri (flattenComments ts))"
    if "fetchComments n getPostThread searchPosts options = Some ts" for ts
  proof -
    from that have "buildCommentTree n ?L = Some ts"
      by (simp only: f)
    then have "distinct (map uri (flattenComments ts))"
      by (rule buildCommentTree_distinct(1) [OF d])
    then show ?thesis
      by (simp add: distinct_roots)
  qed
  obtain ts where "\<forall>n' > length ?L. buildCommentTree n' ?L = Some ts"
    using buildCommentTree_total [OF d] by blast
  moreover have "length ?L \<le> length ?A"
    by (rule length_slice0)
  ultimately have "\<forall>n' > length ?A. fetchComments n' getPostThread searchPosts options = Some ts"
    by (simp add: f)
  then have "\<exists>ts. \<forall>n' > length ?A. fetchComments n' getPostThread searchPosts options = Some ts"
    ..
  with flat keptMentions_fresh [of getPostThread searchPosts options]
    allComments_split [of getPostThread searchPosts options]
  show ?thesis
    by blast
qed

theorem fetchComments_no_duplicates_witness:
  "distinct (map uri (threadReplies sampleThread (sampleOptions\<lparr>maxComments := None\<rparr>)))
   \<and> allComments sampleThread sampleSearch (sampleOptions\<lparr>maxComments := None\<rparr>) = [cA, cB, cM]
   \<and> fetchComments 3 sampleThread sampleSearch (sampleOptions\<lparr>maxComments := None\<rparr>)
      = Some [Node cM [], Node cA [Node cB []]]
   \<and> map uri (flattenComments [Node cM [], Node cA [Node cB []]])
      = [''at://m'', ''at://a'', ''at://b'']"
  using fetchComments_no_duplicates
    [of sampleThread "sampleOptions\<lparr>maxComments := None\<rparr>" sampleSearch 3]
  by (simp add: fixtures fetch_defs eval_nat_numeral)

theorem fetchComments_repeated_reply:
  "fetchComments 3 repeatedReplyThread sampleSearch (sampleOptions\<lparr>maxComments := None\<rparr>)
     = Some [Node cM [], Node cA [Node cB []], Node cA [Node cB []]]
   \<and> map (uri \<circ> nodeComment) [Node cM [], Node cA [Node cB []], Node cA [Node cB []]]
     = [''at://m'', ''at://a'', ''at://a'']
   \<and> map uri (flattenComments [Node cM [], Node cA [Node cB []], Node cA [Node cB []]])
     = [''at://m'', ''at://a'', ''at://b'', ''at://a'', ''at://b'']"
  by (simp add: fixtures fetch_defs eval_nat_numeral)



end
